theory Spec2Isabelle
  imports Complex_Main "HOL-Library.Multiset"
begin

section \<open>Strings as the JavaScript code uses them\<close>

text \<open>
  A JavaScript string is a sequence of code units; \<open>length\<close> counts them. A
  \<^typ>\<open>char\<close> stands for one code unit. \<open>String.prototype.trim\<close> strips
  ECMAScript's WhiteSpace and LineTerminator code units from both ends; the ones a
  \<^typ>\<open>char\<close> can hold are TAB, LF, VT, FF, CR, SPACE and NBSP.
\<close>

definition newline :: char where
  "newline = CHR 0x0A"

definition is_ws :: "char \<Rightarrow> bool" where
  "is_ws c = (c = CHR 0x09 \<or> c = CHR 0x0A \<or> c = CHR 0x0B \<or> c = CHR 0x0C \<or>
              c = CHR 0x0D \<or> c = CHR 0x20 \<or> c = CHR 0xA0)"

definition trim :: "string \<Rightarrow> string" where
  "trim s = rev (dropWhile is_ws (rev (dropWhile is_ws s)))"

text \<open>\<open>s.split('\n')\<close>: the empty string gives one empty line, and a trailing
  line break gives a last empty line.\<close>

fun split_nl :: "string \<Rightarrow> string list" where
  "split_nl [] = [[]]"
| "split_nl (c # cs) =
     (if c = newline then [] # split_nl cs
      else (case split_nl cs of [] \<Rightarrow> [[c]] | l # ls \<Rightarrow> (c # l) # ls))"

text \<open>\<open>xs.join(sep)\<close>.\<close>

fun join_with :: "string \<Rightarrow> string list \<Rightarrow> string" where
  "join_with sep [] = []"
| "join_with sep [x] = x"
| "join_with sep (x # y # ys) = x @ sep @ join_with sep (y # ys)"

text \<open>The decimal rendering of a non-negative integer, as string concatenation
  (\<open>Date.now() + '-' + i\<close>) and template literals produce it; \<open>digit_char\<close> is only
  applied to a digit below ten.\<close>

definition digit_char :: "nat \<Rightarrow> char" where
  "digit_char d = ''0123456789'' ! d"

fun num_to_string :: "nat \<Rightarrow> string" where
  "num_to_string n =
     (if n < 10 then [digit_char n]
      else num_to_string (n div 10) @ [digit_char (n mod 10)])"

declare num_to_string.simps [simp del]

section \<open>chunkText\<close>

text \<open>
  One turn of the \<open>for (const line of text.split('\n'))\<close> loop, on the pair of the
  array \<open>chunks\<close> and the buffer \<open>current\<close>.
\<close>

fun chunk_step :: "int \<Rightarrow> string list \<times> string \<Rightarrow> string \<Rightarrow> string list \<times> string" where
  "chunk_step maxChars (chunks, current) line =
     (if int (length (current @ [newline] @ line)) > maxChars
      then ((if trim current \<noteq> [] then chunks @ [trim current] else chunks), line)
      else (chunks, current @ [newline] @ line))"

definition chunkText :: "string \<Rightarrow> int \<Rightarrow> string list" where
  "chunkText text maxChars =
     (case foldl (chunk_step maxChars) ([], []) (split_nl text) of
        (chunks, current) \<Rightarrow>
          if trim current \<noteq> [] then chunks @ [trim current] else chunks)"

text \<open>The trimmed non-blank lines of a string, in order.\<close>

definition nonblank_lines :: "string \<Rightarrow> string list" where
  "nonblank_lines s = filter (\<lambda>l. trim l \<noteq> []) (split_nl s)"

definition trimmed_lines :: "string \<Rightarrow> string list" where
  "trimmed_lines s = map trim (nonblank_lines s)"

text \<open>The state of the loop of \<open>chunkText\<close> after the lines \<open>ps\<close>: the chunks pushed
  so far come from the groups of lines \<open>blocks\<close>, and the buffer holds the group \<open>cur\<close>
  (after a line break, unless it is the first line of the text).\<close>

definition chunk_inv :: "string list \<Rightarrow> string list \<times> string \<Rightarrow> string list list \<Rightarrow> string list \<Rightarrow> bool" where
  "chunk_inv ps st blocks cur \<longleftrightarrow>
     concat blocks @ cur = ps \<and>
     fst st = filter (\<lambda>c. c \<noteq> []) (map (\<lambda>b. trim (join_with [newline] b)) blocks) \<and>
     (snd st = join_with [newline] cur \<or> (cur \<noteq> [] \<and> snd st = newline # join_with [newline] cur))"

section \<open>Numbers\<close>

text \<open>
  A JavaScript number is an IEEE 754 double: operations round, overflow to an infinity,
  and give NaN where no number fits. The functions of the program take the arithmetic as
  a parameter \<open>A\<close>, the operations the code uses on a type \<open>'n\<close> of numbers, and every
  theorem says what it needs of \<open>A\<close>. \<open>n_undefined\<close> is what \<open>undefined\<close> becomes as an
  operand (an array read past its end), \<open>n_eps\<close> the literal \<open>1e-8\<close>, \<open>n_eq\<close> is \<open>==\<close>.
\<close>

record 'n arith =
  n_add :: "'n \<Rightarrow> 'n \<Rightarrow> 'n"
  n_sub :: "'n \<Rightarrow> 'n \<Rightarrow> 'n"
  n_mul :: "'n \<Rightarrow> 'n \<Rightarrow> 'n"
  n_div :: "'n \<Rightarrow> 'n \<Rightarrow> 'n"
  n_sqrt :: "'n \<Rightarrow> 'n"
  n_zero :: 'n
  n_eps :: 'n
  n_undefined :: 'n
  n_less :: "'n \<Rightarrow> 'n \<Rightarrow> bool"
  n_eq :: "'n \<Rightarrow> 'n \<Rightarrow> bool"

subsection \<open>The doubles\<close>

text \<open>
  The arithmetic of the doubles, for the closed examples: a finite double is the real it
  denotes, and an operation on finite doubles rounds its exact result to the nearest
  double, ties to the even significand (53 bits, exponents from \<open>-1074\<close> for the last
  bit of a subnormal to \<open>971\<close>); a result of magnitude \<open>2^1024 - 2^970\<close> or more is an
  infinity. The two zeros are not told apart: the program never divides by zero (its only
  divisor is at least \<open>1e-8\<close>, or NaN) and never prints a zero's sign.
\<close>

datatype jsnum = Num real | PInf | NInf | NaN

definition ulp_exponent :: "real \<Rightarrow> int" where
  "ulp_exponent x = max (\<lfloor>log 2 \<bar>x\<bar>\<rfloor> - 52) (- 1074)"

definition round_half_even :: "real \<Rightarrow> int" where
  "round_half_even q =
     (if q - of_int \<lfloor>q\<rfloor> < 1 / 2 then \<lfloor>q\<rfloor>
      else if 1 / 2 < q - of_int \<lfloor>q\<rfloor> then \<lfloor>q\<rfloor> + 1
      else if even \<lfloor>q\<rfloor> then \<lfloor>q\<rfloor> else \<lfloor>q\<rfloor> + 1)"

definition nearest64 :: "real \<Rightarrow> real" where
  "nearest64 x =
     (if x = 0 then 0
      else of_int (round_half_even (x / 2 powr of_int (ulp_exponent x))) *
           2 powr of_int (ulp_exponent x))"

definition fl :: "real \<Rightarrow> jsnum" where
  "fl x =
     (if 2 ^ 1024 - 2 ^ 970 \<le> x then PInf
      else if x \<le> - (2 ^ 1024 - 2 ^ 970) then NInf
      else Num (nearest64 x))"

fun f_neg :: "jsnum \<Rightarrow> jsnum" where
  "f_neg (Num x) = Num (- x)"
| "f_neg PInf = NInf"
| "f_neg NInf = PInf"
| "f_neg NaN = NaN"

fun f_add :: "jsnum \<Rightarrow> jsnum \<Rightarrow> jsnum" where
  "f_add (Num x) (Num y) = fl (x + y)"
| "f_add NaN _ = NaN"
| "f_add _ NaN = NaN"
| "f_add PInf NInf = NaN"
| "f_add NInf PInf = NaN"
| "f_add PInf _ = PInf"
| "f_add _ PInf = PInf"
| "f_add NInf _ = NInf"
| "f_add _ NInf = NInf"

definition f_sub :: "jsnum \<Rightarrow> jsnum \<Rightarrow> jsnum" where
  "f_sub x y = f_add x (f_neg y)"

text \<open>An infinity times or over a finite number takes the sign of the product; zero
  times an infinity is NaN.\<close>

definition signed_inf :: "bool \<Rightarrow> jsnum" where
  "signed_inf positive = (if positive then PInf else NInf)"

fun f_mul :: "jsnum \<Rightarrow> jsnum \<Rightarrow> jsnum" where
  "f_mul (Num x) (Num y) = fl (x * y)"
| "f_mul NaN _ = NaN"
| "f_mul _ NaN = NaN"
| "f_mul (Num x) PInf = (if x = 0 then NaN else signed_inf (0 < x))"
| "f_mul (Num x) NInf = (if x = 0 then NaN else signed_inf (x < 0))"
| "f_mul PInf (Num y) = (if y = 0 then NaN else signed_inf (0 < y))"
| "f_mul NInf (Num y) = (if y = 0 then NaN else signed_inf (y < 0))"
| "f_mul PInf PInf = PInf"
| "f_mul NInf NInf = PInf"
| "f_mul PInf NInf = NInf"
| "f_mul NInf PInf = NInf"

fun f_div :: "jsnum \<Rightarrow> jsnum \<Rightarrow> jsnum" where
  "f_div (Num x) (Num y) =
     (if y = 0 then (if x = 0 then NaN else signed_inf (0 < x)) else fl (x / y))"
| "f_div NaN _ = NaN"
| "f_div _ NaN = NaN"
| "f_div (Num x) _ = Num 0"
| "f_div PInf (Num y) = signed_inf (0 \<le> y)"
| "f_div NInf (Num y) = signed_inf (y < 0)"
| "f_div _ _ = NaN"

fun f_sqrt :: "jsnum \<Rightarrow> jsnum" where
  "f_sqrt (Num x) = (if x < 0 then NaN else fl (sqrt x))"
| "f_sqrt PInf = PInf"
| "f_sqrt NInf = NaN"
| "f_sqrt NaN = NaN"

fun f_less :: "jsnum \<Rightarrow> jsnum \<Rightarrow> bool" where
  "f_less (Num x) (Num y) = (x < y)"
| "f_less NaN _ = False"
| "f_less _ NaN = False"
| "f_less NInf NInf = False"
| "f_less NInf _ = True"
| "f_less _ NInf = False"
| "f_less PInf _ = False"
| "f_less _ PInf = True"

fun f_eq :: "jsnum \<Rightarrow> jsnum \<Rightarrow> bool" where
  "f_eq (Num x) (Num y) = (x = y)"
| "f_eq PInf PInf = True"
| "f_eq NInf NInf = True"
| "f_eq _ _ = False"

definition binary64 :: "jsnum arith" where
  "binary64 =
     \<lparr>n_add = f_add, n_sub = f_sub, n_mul = f_mul, n_div = f_div, n_sqrt = f_sqrt,
      n_zero = Num 0, n_eps = fl (1 / 10 ^ 8), n_undefined = NaN,
      n_less = f_less, n_eq = f_eq\<rparr>"

section \<open>Cosine similarity\<close>

text \<open>\<open>v[i]\<close> as an operand of arithmetic.\<close>

definition at_index :: "'n arith \<Rightarrow> 'n list \<Rightarrow> nat \<Rightarrow> 'n" where
  "at_index A v i = (if i < length v then v ! i else n_undefined A)"

text \<open>The body of the \<open>for\<close> loop of \<open>cosineSim\<close>, on \<open>(dot, na, nb)\<close>.\<close>

fun cosineSim_step :: "'n arith \<Rightarrow> 'n list \<Rightarrow> 'n list \<Rightarrow> nat \<Rightarrow> 'n \<times> 'n \<times> 'n \<Rightarrow> 'n \<times> 'n \<times> 'n" where
  "cosineSim_step A a b i (dot, na, nb) =
     (n_add A dot (n_mul A (at_index A a i) (at_index A b i)),
      n_add A na (n_mul A (at_index A a i) (at_index A a i)),
      n_add A nb (n_mul A (at_index A b i) (at_index A b i)))"

definition cosineSim :: "'n arith \<Rightarrow> 'n list \<Rightarrow> 'n list \<Rightarrow> 'n" where
  "cosineSim A a b =
     (case fold (cosineSim_step A a b) [0..<length a] (n_zero A, n_zero A, n_zero A) of
        (dot, na, nb) \<Rightarrow>
          n_div A dot (n_add A (n_mul A (n_sqrt A na) (n_sqrt A nb)) (n_eps A)))"

section \<open>The vector store\<close>

record 'n chunk_record =
  id_r :: string
  text_r :: string
  source :: string
  embedding :: "'n list"

record 'n scored_record = "'n chunk_record" +
  score :: 'n

text \<open>
  The world a request handler runs in: the store file (\<open>None\<close> while it does not
  exist; its JSON text is taken as the list of records it serialises) and the trace of
  the calls made so far to the file system, the embedder and the language model.
\<close>

datatype 'n event =
    LoadDb
  | SaveDb "'n chunk_record list"
  | Embed string
  | Complete string

record 'n world =
  store_file :: "'n chunk_record list option"
  trace :: "'n event list"

definition loadDb :: "'n world \<Rightarrow> 'n chunk_record list \<times> 'n world" where
  "loadDb w =
     ((case store_file w of None \<Rightarrow> [] | Some recs \<Rightarrow> recs),
      w\<lparr>trace := trace w @ [LoadDb]\<rparr>)"

definition saveDb :: "'n chunk_record list \<Rightarrow> 'n world \<Rightarrow> 'n world" where
  "saveDb recs w = w\<lparr>store_file := Some recs, trace := trace w @ [SaveDb recs]\<rparr>"

text \<open>
  \<open>computeEmbedding\<close> wraps the embedding model, which is not part of the repository:
  it is a parameter \<open>embedder\<close> of the handlers, \<open>Inl\<close> the message of the error it throws.
\<close>

definition computeEmbedding :: "(string \<Rightarrow> string + 'n list) \<Rightarrow> string \<Rightarrow> 'n world \<Rightarrow> (string + 'n list) \<times> 'n world" where
  "computeEmbedding embedder txt w = (embedder txt, w\<lparr>trace := trace w @ [Embed txt]\<rparr>)"

section \<open>Responses\<close>

record 'n chat_chunk =
  chunk_id :: string
  chunk_text :: string
  chunk_source :: string
  chunk_score :: 'n

datatype 'n body =
    ErrorBody string
  | ErrorSource string string
  | ErrorDetails string string
  | Inserted nat
  | Answer string "'n chat_chunk list"
  | Removed nat nat string

record 'n response =
  status :: nat
  json :: "'n body"

section \<open>POST /api/docs\<close>

definition make_id :: "nat \<Rightarrow> nat \<Rightarrow> string" where
  "make_id now i = num_to_string now @ ''-'' @ num_to_string i"

text \<open>
  The embedding loop, from index \<open>i\<close> on. \<open>clock i\<close> is what \<open>Date.now()\<close> returns
  when the record of chunk \<open>i\<close> is assembled. An error thrown by the embedder leaves
  the loop at once.
\<close>

fun embed_loop ::
  "(string \<Rightarrow> string + 'n list) \<Rightarrow> (nat \<Rightarrow> nat) \<Rightarrow> string \<Rightarrow> string list \<Rightarrow> nat \<Rightarrow> 'n world
     \<Rightarrow> (string + 'n chunk_record list) \<times> 'n world" where
  "embed_loop embedder clock src [] i w = (Inr [], w)"
| "embed_loop embedder clock src (c # cs) i w =
     (case computeEmbedding embedder c w of
        (Inl err, w1) \<Rightarrow> (Inl err, w1)
      | (Inr e, w1) \<Rightarrow>
          (case embed_loop embedder clock src cs (Suc i) w1 of
             (Inl err, w2) \<Rightarrow> (Inl err, w2)
           | (Inr vectors, w2) \<Rightarrow>
               (Inr (\<lparr>id_r = make_id (clock i) i, text_r = c, source = src, embedding = e\<rparr>
                     # vectors), w2)))"

definition post_docs ::
  "(string \<Rightarrow> string + 'n list) \<Rightarrow> (nat \<Rightarrow> nat) \<Rightarrow> string option \<Rightarrow> string option \<Rightarrow> 'n world
     \<Rightarrow> 'n response \<times> 'n world" where
  "post_docs embedder clock body_text body_source w =
     (let src = (case body_source of None \<Rightarrow> ''manual'' | Some s \<Rightarrow> s) in
      case body_text of
        None \<Rightarrow> (\<lparr>status = 400, json = ErrorBody ''text is required''\<rparr>, w)
      | Some txt \<Rightarrow>
          if txt = [] \<or> trim txt = []
          then (\<lparr>status = 400, json = ErrorBody ''text is required''\<rparr>, w)
          else
            (case embed_loop embedder clock src (chunkText txt 500) 0 w of
               (Inl err, w1) \<Rightarrow>
                 (\<lparr>status = 500, json = ErrorBody ''Failed to index document''\<rparr>, w1)
             | (Inr vectors, w1) \<Rightarrow>
                 (case loadDb w1 of
                    (db, w2) \<Rightarrow>
                      (\<lparr>status = 200, json = Inserted (length vectors)\<rparr>,
                       saveDb (db @ vectors) w2))))"

section \<open>Array.prototype.sort\<close>

text \<open>
  \<open>SortCompare\<close> of ECMAScript, for a comparator \<open>comparefn\<close> that returns a number:
  a negative result puts \<open>x\<close> before \<open>y\<close>, a positive one after it, and zero or NaN
  (which counts as \<open>+0\<close>) neither.
\<close>

datatype order3 = Before | Same | After

definition sort_compare :: "'n arith \<Rightarrow> ('a \<Rightarrow> 'a \<Rightarrow> 'n) \<Rightarrow> 'a \<Rightarrow> 'a \<Rightarrow> order3" where
  "sort_compare A comparefn x y =
     (let v = comparefn x y in
      if n_less A v (n_zero A) then Before
      else if n_less A (n_zero A) v then After
      else Same)"

text \<open>
  The sort itself is a built-in of the engine, and a parameter \<open>srt\<close> of the chat
  handler. ECMAScript (2019 on) asks this of it: the result holds the elements of the
  array; and when the comparator is a consistent comparator for them (it never returns
  NaN, and its three outcomes behave as an equivalence and the two directions of a strict
  order), no element stands after one that \<open>SortCompare\<close> puts it before, and elements
  that compare as equal keep their order. For any other comparator the order is left to
  the engine.
\<close>

definition consistent_comparator :: "'n arith \<Rightarrow> ('a \<Rightarrow> 'a \<Rightarrow> 'n) \<Rightarrow> 'a set \<Rightarrow> bool" where
  "consistent_comparator A cmp S \<longleftrightarrow>
     (\<forall>a \<in> S. \<forall>b \<in> S. n_eq A (cmp a b) (cmp a b)) \<and>
     (\<forall>a \<in> S. sort_compare A cmp a a = Same) \<and>
     (\<forall>a \<in> S. \<forall>b \<in> S. sort_compare A cmp a b = Same \<longrightarrow> sort_compare A cmp b a = Same) \<and>
     (\<forall>a \<in> S. \<forall>b \<in> S. \<forall>c \<in> S.
        sort_compare A cmp a b = Same \<and> sort_compare A cmp b c = Same \<longrightarrow>
        sort_compare A cmp a c = Same) \<and>
     (\<forall>a \<in> S. \<forall>b \<in> S. \<forall>c \<in> S.
        sort_compare A cmp a b = Before \<and> sort_compare A cmp b c = Before \<longrightarrow>
        sort_compare A cmp a c = Before) \<and>
     (\<forall>a \<in> S. \<forall>b \<in> S. \<forall>c \<in> S.
        sort_compare A cmp a b = After \<and> sort_compare A cmp b c = After \<longrightarrow>
        sort_compare A cmp a c = After)"

definition meets_standard :: "'n arith \<Rightarrow> (('a \<Rightarrow> 'a \<Rightarrow> 'n) \<Rightarrow> 'a list \<Rightarrow> 'a list) \<Rightarrow> bool" where
  "meets_standard A srt \<longleftrightarrow>
     (\<forall>cmp xs.
        mset (srt cmp xs) = mset xs \<and>
        (consistent_comparator A cmp (set xs) \<longrightarrow>
           sorted_wrt (\<lambda>a b. sort_compare A cmp b a \<noteq> Before) (srt cmp xs) \<and>
           (\<forall>a \<in> set xs.
              filter (\<lambda>b. sort_compare A cmp a b = Same) (srt cmp xs) =
              filter (\<lambda>b. sort_compare A cmp a b = Same) xs)))"

text \<open>A sort that meets the standard: stable insertion from the right.\<close>

fun insert_sorted :: "'n arith \<Rightarrow> ('a \<Rightarrow> 'a \<Rightarrow> 'n) \<Rightarrow> 'a \<Rightarrow> 'a list \<Rightarrow> 'a list" where
  "insert_sorted A cmp x [] = [x]"
| "insert_sorted A cmp x (y # ys) =
     (if sort_compare A cmp x y = After then y # insert_sorted A cmp x ys else x # y # ys)"

definition insertion_sort :: "'n arith \<Rightarrow> ('a \<Rightarrow> 'a \<Rightarrow> 'n) \<Rightarrow> 'a list \<Rightarrow> 'a list" where
  "insertion_sort A cmp xs = foldr (insert_sorted A cmp) xs []"

text \<open>
  The sort of the V8 engine (\<open>array-sort.tq\<close>) on an array of fewer than 64 elements,
  which is one run of its TimSort: \<open>CountAndMakeRun\<close> takes the longest run at the start
  of the array, ascending (no element before its predecessor) or strictly descending and
  then reversed, and \<open>BinaryInsertionSort\<close> inserts the other elements into it one by
  one, each at the place a binary search finds. Longer arrays, which V8 sorts as several
  runs that it merges, are not modelled: the function is used on short arrays only.
\<close>

fun count_run :: "'n arith \<Rightarrow> ('a \<Rightarrow> 'a \<Rightarrow> 'n) \<Rightarrow> bool \<Rightarrow> 'a \<Rightarrow> 'a list \<Rightarrow> nat" where
  "count_run A cmp descending previous [] = 0"
| "count_run A cmp descending previous (current # rest) =
     (if (if descending then sort_compare A cmp current previous \<noteq> Before
          else sort_compare A cmp current previous = Before)
      then 0
      else Suc (count_run A cmp descending current rest))"

function binary_search :: "'n arith \<Rightarrow> ('a \<Rightarrow> 'a \<Rightarrow> 'n) \<Rightarrow> 'a \<Rightarrow> 'a list \<Rightarrow> nat \<Rightarrow> nat \<Rightarrow> nat" where
  "binary_search A cmp pivot work left right =
     (if left < right
      then (if sort_compare A cmp pivot (work ! (left + (right - left) div 2)) = Before
            then binary_search A cmp pivot work left (left + (right - left) div 2)
            else binary_search A cmp pivot work (left + (right - left) div 2 + 1) right)
      else left)"
  by pat_completeness auto
termination
  by (relation "measure (\<lambda>(A, cmp, pivot, work, left, right). right - left)") auto

declare binary_search.simps [simp del]

definition binary_insert :: "'n arith \<Rightarrow> ('a \<Rightarrow> 'a \<Rightarrow> 'n) \<Rightarrow> 'a list \<Rightarrow> 'a \<Rightarrow> 'a list" where
  "binary_insert A cmp work pivot =
     (let left = binary_search A cmp pivot work 0 (length work)
      in take left work @ [pivot] @ drop left work)"

definition v8_sort :: "'n arith \<Rightarrow> ('a \<Rightarrow> 'a \<Rightarrow> 'n) \<Rightarrow> 'a list \<Rightarrow> 'a list" where
  "v8_sort A cmp xs =
     (case xs of
        x0 # x1 # rest \<Rightarrow>
          (let descending = (sort_compare A cmp x1 x0 = Before);
               n = 2 + count_run A cmp descending x1 rest;
               run = (if descending then rev (take n xs) else take n xs)
           in foldl (binary_insert A cmp) run (drop n xs))
      | _ \<Rightarrow> xs)"

section \<open>POST /api/chat\<close>

text \<open>
  \<open>xs.slice(0, end)\<close> for a finite number \<open>end\<close>: it is truncated towards zero, and a
  negative one counts from the end of the array.
\<close>

definition to_integer :: "real \<Rightarrow> int" where
  "to_integer x = (if x < 0 then \<lceil>x\<rceil> else \<lfloor>x\<rfloor>)"

definition slice0 :: "'a list \<Rightarrow> real \<Rightarrow> 'a list" where
  "slice0 xs end =
     (let len = int (length xs);
          relativeEnd = to_integer end;
          final = (if relativeEnd < 0 then max (len + relativeEnd) 0 else min relativeEnd len)
      in take (nat final) xs)"

definition with_score :: "'n arith \<Rightarrow> 'n list \<Rightarrow> 'n chunk_record \<Rightarrow> 'n scored_record" where
  "with_score A qEmbedding item =
     \<lparr>id_r = id_r item, text_r = text_r item, source = source item,
      embedding = embedding item, score = cosineSim A qEmbedding (embedding item)\<rparr>"

definition by_score_desc :: "'n arith \<Rightarrow> 'n scored_record \<Rightarrow> 'n scored_record \<Rightarrow> 'n" where
  "by_score_desc A a b = n_sub A (score b) (score a)"

definition similarity_search ::
  "'n arith \<Rightarrow> (('n scored_record \<Rightarrow> 'n scored_record \<Rightarrow> 'n) \<Rightarrow> 'n scored_record list \<Rightarrow> 'n scored_record list)
     \<Rightarrow> 'n list \<Rightarrow> 'n chunk_record list \<Rightarrow> real \<Rightarrow> 'n scored_record list" where
  "similarity_search A srt qEmbedding db topK =
     slice0 (srt (by_score_desc A) (map (with_score A qEmbedding) db)) topK"

text \<open>
  What the ranking needs of the scores \<open>S\<close> of a store: the difference of two of them
  is a number (not NaN) with the sign of their comparison, and \<open><\<close> orders them, equal
  ones apart. In the arithmetic of the doubles this holds as soon as every score is
  finite (lemma \<open>finite_scores_ordered\<close>), and fails when one is NaN.
\<close>

definition scores_ordered :: "'n arith \<Rightarrow> 'n set \<Rightarrow> bool" where
  "scores_ordered A S \<longleftrightarrow>
     (\<forall>x \<in> S. \<forall>y \<in> S.
        n_eq A (n_sub A y x) (n_sub A y x) \<and>
        (n_less A (n_sub A y x) (n_zero A) \<longleftrightarrow> n_less A y x) \<and>
        (n_less A (n_zero A) (n_sub A y x) \<longleftrightarrow> n_less A x y)) \<and>
     (\<forall>x \<in> S. \<forall>y \<in> S. n_less A x y \<longrightarrow> \<not> n_less A y x) \<and>
     (\<forall>x \<in> S. \<forall>y \<in> S. \<forall>z \<in> S. n_less A x y \<longrightarrow> n_less A x z \<or> n_less A z y)"

text \<open>Two scores tie when neither is below the other.\<close>

definition tied :: "'n arith \<Rightarrow> 'n \<Rightarrow> 'n \<Rightarrow> bool" where
  "tied A x y \<longleftrightarrow> \<not> n_less A x y \<and> \<not> n_less A y x"

text \<open>\<open>scored.map((s, i) => `Chunk ${i + 1}:\n${s.text}`)\<close>, from index \<open>i\<close> on.\<close>

fun chunk_labels :: "nat \<Rightarrow> 'n scored_record list \<Rightarrow> string list" where
  "chunk_labels i [] = []"
| "chunk_labels i (s # ss) =
     (''Chunk '' @ num_to_string (i + 1) @ '':'' @ [newline] @ text_r s) # chunk_labels (Suc i) ss"

definition user_prompt :: "'n scored_record list \<Rightarrow> string \<Rightarrow> string" where
  "user_prompt scored question =
     ''Context:'' @ [newline] @ join_with [newline, newline] (chunk_labels 0 scored) @
     [newline, newline] @ ''Question: '' @ question @ [newline, newline] @
     ''Please provide a detailed answer, referencing specific parts of the context when applicable, and ensure clarity and precision in your response.''"

definition to_chat_chunk :: "'n scored_record \<Rightarrow> 'n chat_chunk" where
  "to_chat_chunk s =
     \<lparr>chunk_id = id_r s, chunk_text = text_r s, chunk_source = source s, chunk_score = score s\<rparr>"

text \<open>
  The completion call goes to an external service with a fixed model and a fixed system
  message: it is a parameter \<open>completion\<close>, from the user message to the content of the
  first choice, \<open>Inl\<close> the message of the error thrown on the way. \<open>topK\<close> is the number
  the body gives, \<open>None\<close> when it gives none.
\<close>

definition post_chat ::
  "'n arith \<Rightarrow> (('n scored_record \<Rightarrow> 'n scored_record \<Rightarrow> 'n) \<Rightarrow> 'n scored_record list \<Rightarrow> 'n scored_record list)
     \<Rightarrow> (string \<Rightarrow> string + 'n list) \<Rightarrow> (string \<Rightarrow> string + string) \<Rightarrow> string option \<Rightarrow> real option
     \<Rightarrow> 'n world \<Rightarrow> 'n response \<times> 'n world" where
  "post_chat A srt embedder completion body_question body_topK w =
     (let topK = (case body_topK of None \<Rightarrow> 5 | Some k \<Rightarrow> k) in
      case body_question of
        None \<Rightarrow> (\<lparr>status = 400, json = ErrorBody ''question is required''\<rparr>, w)
      | Some question \<Rightarrow>
          if question = [] \<or> trim question = []
          then (\<lparr>status = 400, json = ErrorBody ''question is required''\<rparr>, w)
          else
            (case loadDb w of
               (db, w1) \<Rightarrow>
                 if length db = 0
                 then (\<lparr>status = 400, json = ErrorBody ''No documents indexed yet''\<rparr>, w1)
                 else
                   (case computeEmbedding embedder question w1 of
                      (Inl err, w2) \<Rightarrow>
                        (\<lparr>status = 500, json = ErrorDetails ''Failed to process chat'' err\<rparr>, w2)
                    | (Inr qEmbedding, w2) \<Rightarrow>
                        (let scored = similarity_search A srt qEmbedding db topK;
                             prompt = user_prompt scored question;
                             w3 = w2\<lparr>trace := trace w2 @ [Complete prompt]\<rparr>
                         in case completion prompt of
                              Inl err \<Rightarrow>
                                (\<lparr>status = 500, json = ErrorDetails ''Failed to process chat'' err\<rparr>, w3)
                            | Inr answer \<Rightarrow>
                                (\<lparr>status = 200, json = Answer answer (map to_chat_chunk scored)\<rparr>,
                                 w3)))))"

section \<open>DELETE /api/docs/:source\<close>

text \<open>The handler from \<open>loadDb()\<close> on, for the value of \<open>source\<close> that passed the
  check before it.\<close>

definition deleteBySource :: "string \<Rightarrow> 'n world \<Rightarrow> 'n response \<times> 'n world" where
  "deleteBySource src w =
     (case loadDb w of
        (db, w1) \<Rightarrow>
          (let before = length db;
               filtered = filter (\<lambda>item. source item \<noteq> src) db;
               removed = before - length filtered
           in if removed = 0
              then (\<lparr>status = 404, json = ErrorSource ''No vectors found for source'' src\<rparr>, w1)
              else (\<lparr>status = 200, json = Removed removed (length filtered) src\<rparr>,
                    saveDb filtered w1)))"

text \<open>
  \<open>decodeURIComponent\<close> is a built-in that throws on a malformed escape: it is a
  parameter \<open>decoder\<close>, \<open>Inl\<close> the message of the error. The path parameter is \<open>None\<close>
  when \<open>req.params.source\<close> is undefined.
\<close>

definition delete_docs :: "(string \<Rightarrow> string + string) \<Rightarrow> string option \<Rightarrow> 'n world \<Rightarrow> 'n response \<times> 'n world" where
  "delete_docs decoder param w =
     (case decoder (case param of None \<Rightarrow> [] | Some p \<Rightarrow> p) of
        Inl err \<Rightarrow> (\<lparr>status = 500, json = ErrorDetails ''Failed to delete source'' err\<rparr>, w)
      | Inr decoded \<Rightarrow>
          (let src = trim decoded in
           if src = []
           then (\<lparr>status = 400, json = ErrorBody ''source is required''\<rparr>, w)
           else deleteBySource src w))"

section \<open>Properties of the string functions\<close>

lemma split_nl_nonempty: "split_nl s \<noteq> []"
  by (induction s) (auto split: list.splits)

lemma length_trim: "length (trim s) \<le> length s"
proof -
  have "length (dropWhile is_ws (rev (dropWhile is_ws s))) \<le> length (rev (dropWhile is_ws s))"
    by (rule length_dropWhile_le)
  also have "\<dots> \<le> length s"
    by (simp add: length_dropWhile_le)
  finally show ?thesis by (simp add: trim_def)
qed

lemma trim_eq_Nil_iff: "trim s = [] \<longleftrightarrow> (\<forall>c \<in> set s. is_ws c)"
proof
  assume "trim s = []"
  then have "\<forall>c \<in> set (rev (dropWhile is_ws s)). is_ws c"
    unfolding trim_def rev_is_Nil_conv by (rule dropWhile_eq_Nil_conv [THEN iffD1])
  then have all: "\<forall>c \<in> set (dropWhile is_ws s). is_ws c"
    unfolding set_rev .
  have "dropWhile is_ws s = []"
  proof (rule ccontr)
    assume ne: "dropWhile is_ws s \<noteq> []"
    then have "\<not> is_ws (hd (dropWhile is_ws s))" by (rule hd_dropWhile)
    moreover from ne have "hd (dropWhile is_ws s) \<in> set (dropWhile is_ws s)" by (rule hd_in_set)
    ultimately show False using all by blast
  qed
  then show "\<forall>c \<in> set s. is_ws c"
    by (rule dropWhile_eq_Nil_conv [THEN iffD1])
next
  assume "\<forall>c \<in> set s. is_ws c"
  then have "dropWhile is_ws s = []" by (rule dropWhile_eq_Nil_conv [THEN iffD2])
  then show "trim s = []" by (simp only: trim_def dropWhile.simps rev.simps)
qed

lemma trim_Cons_ws: "is_ws c \<Longrightarrow> trim (c # s) = trim s"
  by (simp add: trim_def)

lemma trim_snoc_ws: "is_ws c \<Longrightarrow> trim (s @ [c]) = trim s"
proof (cases "\<forall>d \<in> set s. is_ws d")
  case True
  assume "is_ws c"
  with True have "trim (s @ [c]) = []" "trim s = []" by (simp_all add: trim_eq_Nil_iff)
  then show ?thesis by simp
next
  case False
  assume c: "is_ws c"
  from False have "dropWhile is_ws (s @ [c]) = dropWhile is_ws s @ [c]"
    by (auto simp: dropWhile_append1)
  with c show ?thesis by (simp add: trim_def)
qed

lemma split_nl_chars: "l \<in> set (split_nl s) \<Longrightarrow> set l \<subseteq> set s"
proof (induction s arbitrary: l)
  case Nil
  then show ?case by simp
next
  case step: (Cons c cs)
  show ?case
  proof (cases "split_nl cs")
    case Nil
    then show ?thesis by (simp add: split_nl_nonempty)
  next
    case sp: (Cons a ls)
    have a: "set a \<subseteq> set cs"
      using step.IH [of a] sp by simp
    have ls: "\<And>k. k \<in> set ls \<Longrightarrow> set k \<subseteq> set cs"
      using step.IH sp by simp
    from step.prems sp have "l = [] \<or> l = c # a \<or> l \<in> set (a # ls)"
      by (auto split: if_splits)
    with a ls show ?thesis by auto
  qed
qed

lemma split_nl_append: "split_nl (a @ newline # b) = split_nl a @ split_nl b"
proof (induction a)
  case Nil
  then show ?case by simp
next
  case (Cons c a)
  then show ?case
    by (cases "split_nl a") (auto simp: split_nl_nonempty)
qed

lemma split_nl_snoc:
  "split_nl (s @ [c]) =
     (if c = newline then split_nl s @ [[]]
      else butlast (split_nl s) @ [last (split_nl s) @ [c]])"
proof (induction s)
  case Nil
  then show ?case by simp
next
  case (Cons d s)
  show ?case
  proof (cases "split_nl s")
    case Nil
    then show ?thesis by (simp add: split_nl_nonempty)
  next
    case (Cons l ls)
    with Cons.IH show ?thesis
      by (cases ls) (auto split: list.splits)
  qed
qed

lemma is_ws_newline: "is_ws newline"
  by (simp add: is_ws_def newline_def)

lemma trimmed_lines_Nil: "trimmed_lines [] = []"
  by (simp add: trimmed_lines_def nonblank_lines_def trim_def)

lemma trimmed_lines_Cons_ws: "is_ws c \<Longrightarrow> trimmed_lines (c # s) = trimmed_lines s"
  by (cases "split_nl s")
     (auto simp: trimmed_lines_def nonblank_lines_def trim_Cons_ws split_nl_nonempty trim_eq_Nil_iff)

lemma trimmed_lines_snoc_ws: "is_ws c \<Longrightarrow> trimmed_lines (s @ [c]) = trimmed_lines s"
proof -
  assume c: "is_ws c"
  have eq: "split_nl s = butlast (split_nl s) @ [last (split_nl s)]"
    by (simp add: split_nl_nonempty)
  show ?thesis
  proof (cases "c = newline")
    case True
    then show ?thesis
      by (simp add: trimmed_lines_def nonblank_lines_def split_nl_snoc trim_def)
  next
    case False
    have "trimmed_lines s =
        map trim (filter (\<lambda>l. trim l \<noteq> []) (butlast (split_nl s) @ [last (split_nl s)]))"
      using eq by (simp add: trimmed_lines_def nonblank_lines_def)
    with False c show ?thesis
      by (simp add: trimmed_lines_def nonblank_lines_def split_nl_snoc trim_snoc_ws)
  qed
qed

lemma trimmed_lines_dropWhile: "trimmed_lines (dropWhile is_ws s) = trimmed_lines s"
  by (induction s) (simp_all add: trimmed_lines_Cons_ws)

lemma trimmed_lines_rev_dropWhile:
  "trimmed_lines (rev (dropWhile is_ws t)) = trimmed_lines (rev t)"
  by (induction t) (simp_all add: trimmed_lines_snoc_ws)

lemma trimmed_lines_trim: "trimmed_lines (trim s) = trimmed_lines s"
proof -
  have "trimmed_lines (trim s) = trimmed_lines (rev (rev (dropWhile is_ws s)))"
    unfolding trim_def by (rule trimmed_lines_rev_dropWhile)
  then show ?thesis by (simp add: trimmed_lines_dropWhile)
qed

lemma trimmed_lines_blank: "trim s = [] \<Longrightarrow> trimmed_lines s = []"
  using trimmed_lines_trim [of s] by (simp add: trimmed_lines_Nil)

lemma trimmed_lines_append_nl:
  "trimmed_lines (a @ newline # b) = trimmed_lines a @ trimmed_lines b"
  by (simp add: trimmed_lines_def nonblank_lines_def split_nl_append)

lemma chunk_step_lines:
  "(case chunk_step m st line of (chunks, current) \<Rightarrow>
      concat (map trimmed_lines chunks) @ trimmed_lines current) =
   (case st of (chunks, current) \<Rightarrow>
      concat (map trimmed_lines chunks) @ trimmed_lines current) @ trimmed_lines line"
  by (cases st)
     (auto simp: trimmed_lines_trim trimmed_lines_blank trimmed_lines_append_nl)

lemma chunk_loop_lines:
  "(case foldl (chunk_step m) st ls of (chunks, current) \<Rightarrow>
      concat (map trimmed_lines chunks) @ trimmed_lines current) =
   (case st of (chunks, current) \<Rightarrow>
      concat (map trimmed_lines chunks) @ trimmed_lines current) @ concat (map trimmed_lines ls)"
proof (induction ls arbitrary: st)
  case Nil
  then show ?case by simp
next
  case (Cons l ls)
  show ?case
    using Cons.IH [of "chunk_step m st l"] chunk_step_lines [of m st l] by simp
qed

lemma chunkText_lines:
  "concat (map trimmed_lines (chunkText t m)) = concat (map trimmed_lines (split_nl t))"
proof -
  obtain chunks current where f: "foldl (chunk_step m) ([], []) (split_nl t) = (chunks, current)"
    by (cases "foldl (chunk_step m) ([], []) (split_nl t)")
  from chunk_loop_lines [of m "([], [])" "split_nl t"] f
  have "concat (map trimmed_lines chunks) @ trimmed_lines current =
        concat (map trimmed_lines (split_nl t))"
    by (simp add: trimmed_lines_Nil)
  with f show ?thesis
    by (auto simp: chunkText_def trimmed_lines_trim trimmed_lines_blank)
qed

lemma trimmed_lines_join:
  "trimmed_lines (join_with [newline] xs) = concat (map trimmed_lines xs)"
  by (induction "[newline]" xs rule: join_with.induct)
     (simp_all add: trimmed_lines_Nil trimmed_lines_append_nl)

lemma join_split_nl: "join_with [newline] (split_nl t) = t"
proof (induction t)
  case Nil
  then show ?case by simp
next
  case (Cons c t)
  then show ?case
    by (cases "split_nl t"; cases "tl (split_nl t)") (auto simp: split_nl_nonempty)
qed

lemma chunk_step_bound:
  assumes "line \<in> L"
    and "\<forall>c \<in> set (fst st). int (length c) \<le> m \<or> (\<exists>l \<in> L. m < int (length l) \<and> c = trim l)"
    and "trim (snd st) = [] \<or> int (length (snd st)) \<le> m \<or> (snd st \<in> L \<and> m < int (length (snd st)))"
  shows "(\<forall>c \<in> set (fst (chunk_step m st line)). int (length c) \<le> m \<or> (\<exists>l \<in> L. m < int (length l) \<and> c = trim l))
       \<and> (trim (snd (chunk_step m st line)) = [] \<or> int (length (snd (chunk_step m st line))) \<le> m
            \<or> (snd (chunk_step m st line) \<in> L \<and> m < int (length (snd (chunk_step m st line)))))"
proof (cases st)
  case (Pair chunks current)
  have tl: "int (length (trim current)) \<le> int (length current)"
    using length_trim [of current] by simp
  show ?thesis
  proof (cases "int (length (current @ [newline] @ line)) > m")
    case True
    have new: "int (length line) \<le> m \<or> (line \<in> L \<and> m < int (length line))"
      using assms(1) by linarith
    have old: "trim current \<noteq> [] \<Longrightarrow>
        int (length (trim current)) \<le> m \<or> (\<exists>l \<in> L. m < int (length l) \<and> trim current = trim l)"
      using assms(3) tl Pair by auto
    from True Pair assms(2) new old show ?thesis
      by auto
  next
    case False
    with Pair assms(2) show ?thesis by auto
  qed
qed

lemma chunk_loop_bound:
  assumes "set ls \<subseteq> L"
    and "\<forall>c \<in> set (fst st). int (length c) \<le> m \<or> (\<exists>l \<in> L. m < int (length l) \<and> c = trim l)"
    and "trim (snd st) = [] \<or> int (length (snd st)) \<le> m \<or> (snd st \<in> L \<and> m < int (length (snd st)))"
  shows "(\<forall>c \<in> set (fst (foldl (chunk_step m) st ls)). int (length c) \<le> m \<or> (\<exists>l \<in> L. m < int (length l) \<and> c = trim l))
       \<and> (trim (snd (foldl (chunk_step m) st ls)) = [] \<or> int (length (snd (foldl (chunk_step m) st ls))) \<le> m
            \<or> (snd (foldl (chunk_step m) st ls) \<in> L \<and> m < int (length (snd (foldl (chunk_step m) st ls)))))"
  using assms
proof (induction ls arbitrary: st)
  case Nil
  then show ?case by simp
next
  case (Cons l ls)
  have "l \<in> L" "set ls \<subseteq> L" using Cons.prems(1) by auto
  from chunk_step_bound [OF \<open>l \<in> L\<close> Cons.prems(2) Cons.prems(3)]
  show ?case
    using Cons.IH [OF \<open>set ls \<subseteq> L\<close>, of "chunk_step m st l"] by simp
qed

lemma chunkText_bound:
  assumes "c \<in> set (chunkText t m)"
  shows "int (length c) \<le> m \<or> (\<exists>l \<in> set (split_nl t). m < int (length l) \<and> c = trim l)"
proof -
  obtain chunks current where f: "foldl (chunk_step m) ([], []) (split_nl t) = (chunks, current)"
    by (cases "foldl (chunk_step m) ([], []) (split_nl t)")
  have inv: "(\<forall>c \<in> set chunks. int (length c) \<le> m \<or> (\<exists>l \<in> set (split_nl t). m < int (length l) \<and> c = trim l))
       \<and> (trim current = [] \<or> int (length current) \<le> m \<or> (current \<in> set (split_nl t) \<and> m < int (length current)))"
    using chunk_loop_bound [of "split_nl t" "set (split_nl t)" "([], [])" m] f
    by (simp add: trim_def)
  have tl: "int (length (trim current)) \<le> int (length current)"
    using length_trim [of current] by simp
  from assms f have "c \<in> set chunks \<or> (c = trim current \<and> trim current \<noteq> [])"
    by (auto simp: chunkText_def split: if_splits)
  then show ?thesis
  proof
    assume "c \<in> set chunks"
    with inv show ?thesis by blast
  next
    assume c: "c = trim current \<and> trim current \<noteq> []"
    with inv have "int (length current) \<le> m \<or> (current \<in> set (split_nl t) \<and> m < int (length current))"
      by blast
    then show ?thesis
    proof
      assume "int (length current) \<le> m"
      with tl c show ?thesis by simp
    next
      assume "current \<in> set (split_nl t) \<and> m < int (length current)"
      with c show ?thesis by blast
    qed
  qed
qed

lemma chunk_step_blank:
  assumes "trim line = []" and "fst st = []" and "trim (snd st) = []"
  shows "fst (chunk_step m st line) = [] \<and> trim (snd (chunk_step m st line)) = []"
proof (cases st)
  case (Pair chunks current)
  have "trim (current @ newline # line) = []"
    using assms Pair by (auto simp: trim_eq_Nil_iff is_ws_newline)
  with assms Pair show ?thesis by simp
qed

lemma chunk_loop_blank:
  assumes "\<forall>l \<in> set ls. trim l = []" and "fst st = []" and "trim (snd st) = []"
  shows "fst (foldl (chunk_step m) st ls) = [] \<and> trim (snd (foldl (chunk_step m) st ls)) = []"
  using assms
proof (induction ls arbitrary: st)
  case Nil
  then show ?case by simp
next
  case (Cons l ls)
  have l: "trim l = []" and ls: "\<forall>k \<in> set ls. trim k = []" using Cons.prems(1) by simp_all
  from chunk_step_blank [OF l Cons.prems(2) Cons.prems(3), of m]
  have "fst (chunk_step m st l) = []" "trim (snd (chunk_step m st l)) = []" by simp_all
  from Cons.IH [OF ls this] show ?case by simp
qed

lemma chunkText_blank:
  assumes "\<forall>c \<in> set t. is_ws c"
  shows "chunkText t m = []"
proof -
  have "\<forall>l \<in> set (split_nl t). trim l = []"
    using assms split_nl_chars by (fastforce simp: trim_eq_Nil_iff)
  moreover have "trim (snd (([], []) :: string list \<times> string)) = []"
    by (simp add: trim_def)
  ultimately have r: "fst (foldl (chunk_step m) ([], []) (split_nl t)) = [] \<and>
      trim (snd (foldl (chunk_step m) ([], []) (split_nl t))) = []"
    using chunk_loop_blank [of "split_nl t" "([], [])" m] by simp
  obtain chunks current where f: "foldl (chunk_step m) ([], []) (split_nl t) = (chunks, current)"
    by (cases "foldl (chunk_step m) ([], []) (split_nl t)")
  with r have "chunks = []" "trim current = []" by simp_all
  with f show ?thesis
    by (simp add: chunkText_def)
qed

lemma chunk_step_keeps_long:
  assumes "\<forall>l \<in> P. int (length l) > m \<and> trim l \<noteq> [] \<longrightarrow> trim l \<in> set (fst st) \<or> l = snd st"
  shows "\<forall>l \<in> insert line P. int (length l) > m \<and> trim l \<noteq> [] \<longrightarrow>
           trim l \<in> set (fst (chunk_step m st line)) \<or> l = snd (chunk_step m st line)"
proof (cases st)
  case (Pair chunks current)
  show ?thesis
  proof (cases "int (length (current @ [newline] @ line)) > m")
    case True
    with Pair assms show ?thesis by auto
  next
    case False
    then have short: "\<not> int (length line) > m" "\<not> int (length current) > m" by simp_all
    with False Pair assms show ?thesis by auto
  qed
qed

lemma chunk_loop_keeps_long:
  assumes "\<forall>l \<in> P. int (length l) > m \<and> trim l \<noteq> [] \<longrightarrow> trim l \<in> set (fst st) \<or> l = snd st"
  shows "\<forall>l \<in> P \<union> set ls. int (length l) > m \<and> trim l \<noteq> [] \<longrightarrow>
           trim l \<in> set (fst (foldl (chunk_step m) st ls)) \<or> l = snd (foldl (chunk_step m) st ls)"
  using assms
proof (induction ls arbitrary: st P)
  case Nil
  then show ?case by simp
next
  case (Cons x ls)
  from chunk_step_keeps_long [OF Cons.prems, of x]
  have "\<forall>l \<in> insert x P \<union> set ls. int (length l) > m \<and> trim l \<noteq> [] \<longrightarrow>
           trim l \<in> set (fst (foldl (chunk_step m) (chunk_step m st x) ls))
           \<or> l = snd (foldl (chunk_step m) (chunk_step m st x) ls)"
    by (rule Cons.IH)
  then show ?case by simp
qed

lemma chunkText_keeps_long:
  assumes "l \<in> set (split_nl t)" and "m < int (length l)" and "trim l \<noteq> []"
  shows "trim l \<in> set (chunkText t m)"
proof -
  obtain chunks current where f: "foldl (chunk_step m) ([], []) (split_nl t) = (chunks, current)"
    by (cases "foldl (chunk_step m) ([], []) (split_nl t)")
  have "\<forall>l \<in> {} \<union> set (split_nl t). int (length l) > m \<and> trim l \<noteq> [] \<longrightarrow>
           trim l \<in> set (fst (foldl (chunk_step m) ([], []) (split_nl t)))
           \<or> l = snd (foldl (chunk_step m) ([], []) (split_nl t))"
    by (rule chunk_loop_keeps_long) simp
  with assms f have "trim l \<in> set chunks \<or> l = current" by simp
  with assms(3) f show ?thesis
    by (auto simp: chunkText_def)
qed

lemma trim_newline_Cons: "trim (newline # s) = trim s"
  by (simp add: trim_Cons_ws is_ws_newline)

lemma join_with_snoc: "xs \<noteq> [] \<Longrightarrow> join_with sep (xs @ [x]) = join_with sep xs @ sep @ x"
  by (induction sep xs rule: join_with.induct) simp_all

lemma chunk_inv_trim: "chunk_inv ps st blocks cur \<Longrightarrow> trim (snd st) = trim (join_with [newline] cur)"
  by (auto simp: chunk_inv_def trim_newline_Cons)

lemma chunk_step_inv:
  assumes "chunk_inv ps st blocks cur"
  shows "\<exists>blocks' cur'. chunk_inv (ps @ [line]) (chunk_step m st line) blocks' cur'"
proof (cases st)
  case (Pair chunks current)
  have tr: "trim current = trim (join_with [newline] cur)"
    using chunk_inv_trim [OF assms] Pair by simp
  show ?thesis
  proof (cases "int (length (current @ [newline] @ line)) > m")
    case True
    have "chunk_inv (ps @ [line]) (chunk_step m st line) (blocks @ [cur]) [line]"
      using assms True Pair tr by (auto simp: chunk_inv_def)
    then show ?thesis by blast
  next
    case False
    have "chunk_inv (ps @ [line]) (chunk_step m st line) blocks (cur @ [line])"
    proof (cases "cur = []")
      case True
      with assms Pair have "current = []" by (auto simp: chunk_inv_def)
      with assms False Pair True show ?thesis by (auto simp: chunk_inv_def)
    next
      case ne: False
      with assms False Pair show ?thesis
        by (auto simp: chunk_inv_def join_with_snoc)
    qed
    then show ?thesis by blast
  qed
qed

lemma chunk_loop_inv:
  assumes "chunk_inv ps st blocks cur"
  shows "\<exists>blocks' cur'. chunk_inv (ps @ ls) (foldl (chunk_step m) st ls) blocks' cur'"
  using assms
proof (induction ls arbitrary: ps st blocks cur)
  case Nil
  then show ?case by auto
next
  case (Cons l ls)
  from chunk_step_inv [OF Cons.prems, of l m] obtain b c where
    "chunk_inv (ps @ [l]) (chunk_step m st l) b c" by blast
  from Cons.IH [OF this] show ?case by simp
qed

lemma chunkText_blocks:
  "\<exists>blocks. concat blocks = split_nl t \<and>
     chunkText t m = filter (\<lambda>c. c \<noteq> []) (map (\<lambda>b. trim (join_with [newline] b)) blocks)"
proof -
  have "chunk_inv [] ([], []) [] []" by (simp add: chunk_inv_def)
  from chunk_loop_inv [OF this, of "split_nl t" m] obtain blocks cur where
    inv: "chunk_inv (split_nl t) (foldl (chunk_step m) ([], []) (split_nl t)) blocks cur"
    by auto
  obtain chunks current where f: "foldl (chunk_step m) ([], []) (split_nl t) = (chunks, current)"
    by (cases "foldl (chunk_step m) ([], []) (split_nl t)")
  have tr: "trim current = trim (join_with [newline] cur)"
    using chunk_inv_trim [OF inv] f by simp
  have "concat (blocks @ [cur]) = split_nl t" using inv by (simp add: chunk_inv_def)
  moreover have "chunkText t m =
      filter (\<lambda>c. c \<noteq> []) (map (\<lambda>b. trim (join_with [newline] b)) (blocks @ [cur]))"
    using inv f tr by (auto simp: chunkText_def chunk_inv_def)
  ultimately show ?thesis by blast
qed

lemma chunkText_trimmed_lines:
  "trimmed_lines (join_with [newline] (chunkText t m)) = trimmed_lines t"
proof -
  have "trimmed_lines (join_with [newline] (chunkText t m)) =
        concat (map trimmed_lines (split_nl t))"
    by (simp add: trimmed_lines_join chunkText_lines)
  also have "\<dots> = trimmed_lines (join_with [newline] (split_nl t))"
    by (simp add: trimmed_lines_join)
  finally show ?thesis by (simp add: join_split_nl)
qed

section \<open>Properties of chunkText\<close>

text \<open>
  C4. For every input text and every \<open>maxChars\<close>, each chunk that \<open>chunkText\<close>
  returns has at most \<open>maxChars\<close> characters, unless it is one input line longer than
  \<open>maxChars\<close> (trimmed, as every chunk is). Such a line is never split: every non-blank
  input line longer than \<open>maxChars\<close> is, trimmed, a chunk of its own. A text of white
  space only gives no chunk at all.
\<close>

theorem chunkText_bounded:
  "(\<forall>c \<in> set (chunkText t m).
      int (length c) \<le> m \<or> (\<exists>l \<in> set (split_nl t). m < int (length l) \<and> c = trim l)) \<and>
   (\<forall>l \<in> set (split_nl t).
      m < int (length l) \<and> trim l \<noteq> [] \<longrightarrow> trim l \<in> set (chunkText t m)) \<and>
   ((\<forall>ch \<in> set t. is_ws ch) \<longrightarrow> chunkText t m = [])"
  using chunkText_bound chunkText_keeps_long chunkText_blank by blast

theorem chunkText_bounded_witness:
  "chunkText (''ab'' @ [newline] @ ''cdefgh'' @ [newline] @ ''  '' @ [newline] @ ''i'') 4
     = [''ab'', ''cdefgh'', ''i''] \<and>
   (int (length ''cdefgh'') \<le> 4 \<or>
    (\<exists>l \<in> set (split_nl (''ab'' @ [newline] @ ''cdefgh'' @ [newline] @ ''  '' @ [newline] @ ''i'')).
       4 < int (length l) \<and> ''cdefgh'' = trim l)) \<and>
   trim '' cdefgh '' \<in> set (chunkText (''ab'' @ [newline] @ '' cdefgh '' @ [newline] @ ''i'') 4) \<and>
   chunkText ('' '' @ [newline] @ [CHR 0x09]) 4 = []"
proof -
  let ?t = "''ab'' @ [newline] @ ''cdefgh'' @ [newline] @ ''  '' @ [newline] @ ''i''"
  let ?u = "''ab'' @ [newline] @ '' cdefgh '' @ [newline] @ ''i''"
  have run: "chunkText ?t 4 = [''ab'', ''cdefgh'', ''i'']"
    by code_simp
  have "\<forall>c \<in> set (chunkText ?t 4).
      int (length c) \<le> 4 \<or> (\<exists>l \<in> set (split_nl ?t). 4 < int (length l) \<and> c = trim l)"
    by (rule chunkText_bounded [of ?t 4, THEN conjunct1])
  then have long: "int (length ''cdefgh'') \<le> 4 \<or>
      (\<exists>l \<in> set (split_nl ?t). 4 < int (length l) \<and> ''cdefgh'' = trim l)"
    unfolding run by simp
  have line: "'' cdefgh '' \<in> set (split_nl ?u)" by code_simp
  have big: "4 < int (length '' cdefgh '') \<and> trim '' cdefgh '' \<noteq> []" by code_simp
  have "\<forall>l \<in> set (split_nl ?u).
      4 < int (length l) \<and> trim l \<noteq> [] \<longrightarrow> trim l \<in> set (chunkText ?u 4)"
    by (rule chunkText_bounded [of ?u 4, THEN conjunct2, THEN conjunct1])
  with line big have kept: "trim '' cdefgh '' \<in> set (chunkText ?u 4)" by blast
  have ws: "\<forall>ch \<in> set ('' '' @ [newline] @ [CHR 0x09]). is_ws ch"
    by (simp add: is_ws_def newline_def)
  have "chunkText ('' '' @ [newline] @ [CHR 0x09]) 4 = []"
    by (rule chunkText_bounded [of "'' '' @ [newline] @ [CHR 0x09]" 4,
          THEN conjunct2, THEN conjunct2, THEN mp, OF ws])
  with run long kept show ?thesis by blast
qed

text \<open>
  C7, as the specification states it: joining the chunks with line breaks gives back
  the non-blank lines of the input. It fails on a line that starts with white space,
  because every chunk is trimmed.
\<close>

theorem chunkText_lines_counterexample:
  "nonblank_lines (join_with [newline] (chunkText ''  a'' 500)) \<noteq> nonblank_lines ''  a''"
  by code_simp

text \<open>
  C7, amended. For every input text and every \<open>maxChars\<close>, the lines of the input fall
  into consecutive groups, and the chunks are, in order, the groups joined by line
  breaks and trimmed at their two ends, without those that come out empty: a chunk
  holds its lines as they are in the input, but for the white space (blank lines too)
  before its first and after its last character. So joining the chunks with line breaks
  gives back the non-blank lines of the input in their order, up to white space at the
  ends of the lines.
\<close>

theorem chunkText_reconstructs_lines:
  "(\<exists>blocks. concat blocks = split_nl t \<and>
      chunkText t m = filter (\<lambda>c. c \<noteq> []) (map (\<lambda>b. trim (join_with [newline] b)) blocks)) \<and>
   trimmed_lines (join_with [newline] (chunkText t m)) = trimmed_lines t"
  using chunkText_blocks [of t m] chunkText_trimmed_lines [of t m] by (rule conjI)

theorem chunkText_reconstructs_lines_witness:
  "(\<exists>blocks. concat blocks = [''a'', ''  b'', ''c '', ''d''] \<and>
      chunkText (''a'' @ [newline] @ ''  b'' @ [newline] @ ''c '' @ [newline] @ ''d'') 7 =
        filter (\<lambda>c. c \<noteq> []) (map (\<lambda>b. trim (join_with [newline] b)) blocks)) \<and>
   chunkText (''a'' @ [newline] @ ''  b'' @ [newline] @ ''c '' @ [newline] @ ''d'') 7 =
     [''a'' @ [newline] @ ''  b'', ''c '' @ [newline] @ ''d'']"
proof -
  let ?t = "''a'' @ [newline] @ ''  b'' @ [newline] @ ''c '' @ [newline] @ ''d''"
  have lines: "split_nl ?t = [''a'', ''  b'', ''c '', ''d'']" by code_simp
  have run: "chunkText ?t 7 = [''a'' @ [newline] @ ''  b'', ''c '' @ [newline] @ ''d'']"
    by code_simp
  from chunkText_reconstructs_lines [of ?t 7, THEN conjunct1]
  have groups: "\<exists>blocks. concat blocks = [''a'', ''  b'', ''c '', ''d''] \<and>
      chunkText ?t 7 = filter (\<lambda>c. c \<noteq> []) (map (\<lambda>b. trim (join_with [newline] b)) blocks)"
    unfolding lines .
  from groups run show ?thesis by (rule conjI)
qed

section \<open>The arithmetic of the doubles\<close>

lemma round_half_even_bounds:
  "\<lfloor>q\<rfloor> \<le> round_half_even q \<and> round_half_even q \<le> \<lfloor>q\<rfloor> + 1"
  by (simp add: round_half_even_def)

lemma fl_zero: "fl 0 = Num 0"
  by (simp add: fl_def nearest64_def)

lemma nearest64_pos_bounds:
  assumes low: "1 / 2 ^ 1022 \<le> z"
  shows "z / 2 \<le> nearest64 z \<and> nearest64 z \<le> 2 * z"
proof -
  have zpos: "0 < z" using low by (rule less_le_trans [rotated]) simp
  define k where "k = \<lfloor>log 2 z\<rfloor>"
  have "of_int k \<le> log 2 z" unfolding k_def by simp
  then have k1: "2 powr of_int k \<le> z" using zpos by (simp add: le_log_iff)
  have "log 2 z < of_int k + 1" unfolding k_def by linarith
  then have "z < 2 powr (of_int k + 1)" using zpos by (simp add: log_less_iff)
  then have k2: "z < 2 * 2 powr of_int k" by (simp add: powr_add)
  have "(2::real) powr (- 1022) = 1 / 2 ^ 1022"
    by (simp add: powr_minus_divide powr_realpow [symmetric])
  with low have "2 powr (- 1022) \<le> z" by simp
  then have "- 1022 \<le> log 2 z" using zpos by (simp add: le_log_iff)
  then have klow: "- 1022 \<le> k" unfolding k_def by (simp add: le_floor_iff)
  have "ulp_exponent z = max (k - 52) (- 1074)"
    using zpos by (simp add: ulp_exponent_def k_def)
  with klow have ue: "ulp_exponent z = k - 52" by simp
  define u :: real where "u = 2 powr of_int (k - 52)"
  have upos: "0 < u" unfolding u_def by simp
  have uk: "u * 2 ^ 52 = 2 powr of_int k"
  proof -
    have "(2::real) powr of_int k = 2 powr (of_int (k - 52) + 52)" by simp
    also have "\<dots> = 2 powr of_int (k - 52) * 2 powr 52" by (rule powr_add)
    also have "(2::real) powr 52 = 2 ^ 52" by (rule powr_numeral) simp
    finally show ?thesis unfolding u_def by (rule sym)
  qed
  define n where "n = round_half_even (z / u)"
  have nz: "nearest64 z = of_int n * u"
    using zpos ue by (simp add: nearest64_def n_def u_def)
  have "u * 2 ^ 52 \<le> z" using uk k1 by simp
  then have qlow: "2 ^ 52 \<le> z / u" using upos by (simp add: pos_le_divide_eq mult.commute)
  then have "of_int (2 ^ 52 :: int) \<le> z / u" by simp
  then have "(2 ^ 52 :: int) \<le> \<lfloor>z / u\<rfloor>" by (simp only: le_floor_iff)
  with round_half_even_bounds [of "z / u"] have nlow: "(2 ^ 52 :: int) \<le> n" unfolding n_def by linarith
  then have "(2 ^ 52 :: real) \<le> of_int n" by (metis of_int_le_iff of_int_numeral of_int_power)
  then have "2 ^ 52 * u \<le> of_int n * u" using upos by (simp add: mult_right_mono)
  with uk have "2 powr of_int k \<le> of_int n * u" by (simp add: mult.commute)
  with k2 nz have lower: "z / 2 \<le> nearest64 z" by simp
  have "of_int n \<le> of_int \<lfloor>z / u\<rfloor> + (1::real)"
    using round_half_even_bounds [of "z / u"] unfolding n_def by linarith
  also have "\<dots> \<le> z / u + 1" by simp
  finally have "of_int n * u \<le> (z / u + 1) * u" using upos by (simp add: mult_right_mono)
  also have "\<dots> = z + u" using upos by (simp add: field_simps)
  finally have "nearest64 z \<le> z + u" using nz by simp
  moreover have "u \<le> z"
  proof -
    have "u \<le> u * 2 ^ 52" using upos by simp
    with uk k1 show ?thesis by simp
  qed
  ultimately have upper: "nearest64 z \<le> 2 * z" by simp
  from lower upper show ?thesis by (rule conjI)
qed

lemma fl_pos_bounds:
  assumes "1 / 2 ^ 1022 \<le> z" and "z \<le> 2 ^ 1023"
  shows "\<exists>r. fl z = Num r \<and> z / 2 \<le> r \<and> r \<le> 2 * z"
proof -
  have "0 < z" using assms(1) by (rule less_le_trans [rotated]) simp
  moreover have "(2::real) ^ 1023 < 2 ^ 1024 - 2 ^ 970" by simp
  ultimately have "fl z = Num (nearest64 z)" using assms(2) by (simp add: fl_def)
  with nearest64_pos_bounds [OF assms(1)] show ?thesis by simp
qed


lemma round_half_even_minus: "round_half_even (- q) = - round_half_even q"
proof (cases "q = of_int \<lfloor>q\<rfloor>")
  case True
  then obtain i :: int where q: "q = of_int i" by blast
  have "- q = of_int (- i)" using q by simp
  then have "round_half_even (- q) = - i"
    unfolding round_half_even_def by (simp only: floor_of_int) simp
  moreover have "round_half_even q = i"
    unfolding round_half_even_def q by (simp only: floor_of_int) simp
  ultimately show ?thesis by simp
next
  case False
  define f where "f = \<lfloor>q\<rfloor>"
  have lo: "of_int f < q" using False unfolding f_def by (metis floor_correct order_le_less)
  have hi: "q < of_int f + 1" unfolding f_def by linarith
  have fm: "\<lfloor>- q\<rfloor> = - f - 1"
    using lo hi by (simp add: floor_unique)
  show ?thesis
    unfolding round_half_even_def fm f_def [symmetric]
    using lo hi by (auto simp: field_simps)
qed

lemma nearest64_minus: "nearest64 (- z) = - nearest64 z"
  by (simp add: nearest64_def ulp_exponent_def round_half_even_minus)

lemma fl_minus: "fl (- z) = f_neg (fl z)"
proof -
  have "(0::real) < 2 ^ 1024 - 2 ^ 970" by simp
  then show ?thesis
    by (auto simp: fl_def nearest64_minus)
qed

lemma fl_mid:
  assumes "1 / 1024 \<le> z" and "z \<le> 1024"
  shows "\<exists>r. fl z = Num r \<and> z / 2 \<le> r \<and> r \<le> 2 * z"
proof (rule fl_pos_bounds)
  have "(1::real) / 2 ^ 1022 \<le> 1 / 1024" by simp
  then show "1 / 2 ^ 1022 \<le> z" using assms(1) by (rule order_trans)
  have "(1024::real) \<le> 2 ^ 1023" by simp
  with assms(2) show "z \<le> 2 ^ 1023" by (rule order_trans)
qed

lemma fl_eps: "\<exists>e. fl (1 / 10 ^ 8) = Num e \<and> 1 / (2 * 10 ^ 8) \<le> e \<and> e \<le> 2 / 10 ^ 8"
proof -
  have "(1::real) / 2 ^ 1022 \<le> 1 / 10 ^ 8" by simp
  moreover have "(1::real) / 10 ^ 8 \<le> 2 ^ 1023" by simp
  ultimately obtain e where "fl (1 / 10 ^ 8) = Num e" "(1 / 10 ^ 8) / 2 \<le> e" "e \<le> 2 * (1 / 10 ^ 8)"
    using fl_pos_bounds [of "1 / 10 ^ 8"] by blast
  then show ?thesis by auto
qed

text \<open>The sum of squares that \<open>cosineSim\<close> computes for the vector \<open>[1]\<close>.\<close>

lemma norm_one: "\<exists>d. f_add (Num 0) (f_mul (Num 1) (Num 1)) = Num d \<and> 1 / 4 \<le> d \<and> d \<le> 4"
proof -
  obtain t where t: "fl 1 = Num t" "1 / 2 \<le> t" "t \<le> 2"
    using fl_mid [of 1] by auto
  obtain d where d: "fl t = Num d" "t / 2 \<le> d" "d \<le> 2 * t"
    using fl_mid [of t] t by auto
  have "f_add (Num 0) (f_mul (Num 1) (Num 1)) = Num d" using t d by simp
  moreover have "1 / 4 \<le> d" "d \<le> 4" using t d by simp_all
  ultimately show ?thesis by blast
qed

lemma sqrt_norm_one:
  assumes "1 / 4 \<le> d" and "d \<le> 4"
  shows "\<exists>s. f_sqrt (Num d) = Num s \<and> 1 / 4 \<le> s \<and> s \<le> 4"
proof -
  have "sqrt (1 / 4) \<le> sqrt d" using assms(1) by (simp only: real_sqrt_le_iff)
  moreover have "sqrt (1 / 4) = 1 / 2" by (simp add: real_sqrt_divide)
  ultimately have lo: "1 / 2 \<le> sqrt d" by simp
  have "sqrt d \<le> sqrt 4" using assms(2) by (simp only: real_sqrt_le_iff)
  moreover have "sqrt 4 = (2::real)" using real_sqrt_abs [of 2] by simp
  ultimately have hi: "sqrt d \<le> 2" by simp
  obtain s where s: "fl (sqrt d) = Num s" "sqrt d / 2 \<le> s" "s \<le> 2 * sqrt d"
    using fl_mid [of "sqrt d"] lo hi by auto
  have "f_sqrt (Num d) = Num s" using s assms(1) by simp
  moreover have "1 / 4 \<le> s" "s \<le> 4" using s lo hi by simp_all
  ultimately show ?thesis by blast
qed

text \<open>The scores of the examples, for the query \<open>[1]\<close>: a positive number against
  the embedding \<open>[1]\<close>, zero against \<open>[0]\<close>, NaN against the empty embedding.\<close>

lemma score_one: "\<exists>p. cosineSim binary64 [Num 1] [Num 1] = Num p \<and> 1 / 2048 \<le> p \<and> p \<le> 1024"
proof -
  obtain d where d: "f_add (Num 0) (f_mul (Num 1) (Num 1)) = Num d" "1 / 4 \<le> d" "d \<le> 4"
    using norm_one by blast
  obtain s where s: "f_sqrt (Num d) = Num s" "1 / 4 \<le> s" "s \<le> 4"
    using sqrt_norm_one [OF d(2,3)] by blast
  have "1 / 16 \<le> s * s" using s(2) mult_mono [of "1 / 4" s "1 / 4" s] by simp
  moreover have "s * s \<le> 16" using s(2,3) mult_mono [of s 4 s 4] by simp
  ultimately obtain m where m: "fl (s * s) = Num m" "1 / 32 \<le> m" "m \<le> 32"
    using fl_mid [of "s * s"] by auto
  obtain e where e: "fl (1 / 10 ^ 8) = Num e" "1 / (2 * 10 ^ 8) \<le> e" "e \<le> 2 / 10 ^ 8"
    using fl_eps by blast
  have "1 / 32 \<le> m + e" "m + e \<le> 33" using m e by simp_all
  then obtain g where g: "fl (m + e) = Num g" "1 / 64 \<le> g" "g \<le> 66"
    using fl_mid [of "m + e"] by auto
  have gpos: "0 < g" using g(2) by simp
  have "d / g \<le> 4 / (1 / 64)"
    using d g gpos by (intro frac_le) simp_all
  then have qhi: "d / g \<le> 256" by simp
  have "(1 / 4) / 66 \<le> d / g"
    using d g gpos by (intro frac_le) simp_all
  then have qlo: "1 / 264 \<le> d / g" by simp
  obtain p where p: "fl (d / g) = Num p" "d / g / 2 \<le> p" "p \<le> 2 * (d / g)"
    using fl_mid [of "d / g"] qlo qhi by auto
  have "cosineSim binary64 [Num 1] [Num 1] = Num p"
    using d(1) s(1) m(1) e(1) g(1) p(1) gpos
    by (simp add: cosineSim_def at_index_def binary64_def)
  moreover have "1 / 2048 \<le> p" "p \<le> 1024" using p qlo qhi by simp_all
  ultimately show ?thesis by blast
qed

lemma score_zero: "cosineSim binary64 [Num 1] [Num 0] = Num 0"
proof -
  obtain d where d: "f_add (Num 0) (f_mul (Num 1) (Num 1)) = Num d" "1 / 4 \<le> d" "d \<le> 4"
    using norm_one by blast
  obtain s where s: "f_sqrt (Num d) = Num s" "1 / 4 \<le> s" "s \<le> 4"
    using sqrt_norm_one [OF d(2,3)] by blast
  obtain e where e: "fl (1 / 10 ^ 8) = Num e" "1 / (2 * 10 ^ 8) \<le> e" "e \<le> 2 / 10 ^ 8"
    using fl_eps by blast
  have "(1::real) / 2 ^ 1022 \<le> 1 / (2 * 10 ^ 8)" by simp
  then have "1 / 2 ^ 1022 \<le> e" using e(2) by (rule order_trans)
  moreover have "e \<le> 2 ^ 1023" using e(3) by (rule order_trans) simp
  ultimately obtain g where g: "fl e = Num g" "e / 2 \<le> g"
    using fl_pos_bounds [of e] by blast
  have "0 < e" using e(2) by (rule less_le_trans [rotated]) simp
  with g(2) have gpos: "g \<noteq> 0" by simp
  show ?thesis
    using d(1) s(1) e(1) g(1) gpos
    by (simp add: cosineSim_def at_index_def binary64_def fl_zero)
qed

lemma score_undefined: "cosineSim binary64 [Num 1] [] = NaN"
  by (simp add: cosineSim_def at_index_def binary64_def)


section \<open>Cosine similarity\<close>





section \<open>Sorting\<close>

lemma consistent_subset:
  "consistent_comparator A cmp S \<Longrightarrow> T \<subseteq> S \<Longrightarrow> consistent_comparator A cmp T"
  unfolding consistent_comparator_def by (meson subsetD)

lemma consistent_flip_before:
  assumes "consistent_comparator A cmp S" and "a \<in> S" and "b \<in> S"
    and "sort_compare A cmp a b = Before"
  shows "sort_compare A cmp b a = After"
proof (cases "sort_compare A cmp b a")
  case Before
  with assms have "sort_compare A cmp a a = Before"
    unfolding consistent_comparator_def by blast
  moreover have "sort_compare A cmp a a = Same"
    using assms(1,2) unfolding consistent_comparator_def by blast
  ultimately show ?thesis by simp
next
  case Same
  with assms(1-3) have "sort_compare A cmp a b = Same"
    unfolding consistent_comparator_def by blast
  with assms(4) show ?thesis by simp
next
  case After
  then show ?thesis .
qed

lemma consistent_flip_after:
  assumes "consistent_comparator A cmp S" and "a \<in> S" and "b \<in> S"
    and "sort_compare A cmp a b = After"
  shows "sort_compare A cmp b a = Before"
proof (cases "sort_compare A cmp b a")
  case After
  with assms have "sort_compare A cmp a a = After"
    unfolding consistent_comparator_def by blast
  moreover have "sort_compare A cmp a a = Same"
    using assms(1,2) unfolding consistent_comparator_def by blast
  ultimately show ?thesis by simp
next
  case Same
  with assms(1-3) have "sort_compare A cmp a b = Same"
    unfolding consistent_comparator_def by blast
  with assms(4) show ?thesis by simp
next
  case Before
  then show ?thesis .
qed

lemma consistent_same_trans:
  assumes "consistent_comparator A cmp S" and "a \<in> S" and "b \<in> S" and "c \<in> S"
    and "sort_compare A cmp a b = Same" and "sort_compare A cmp b c = Same"
  shows "sort_compare A cmp a c = Same"
  using assms unfolding consistent_comparator_def by blast

lemma consistent_same_sym:
  assumes "consistent_comparator A cmp S" and "a \<in> S" and "b \<in> S"
    and "sort_compare A cmp a b = Same"
  shows "sort_compare A cmp b a = Same"
  using assms unfolding consistent_comparator_def by blast

lemma consistent_before_trans:
  assumes "consistent_comparator A cmp S" and "a \<in> S" and "b \<in> S" and "c \<in> S"
    and "sort_compare A cmp a b = Before" and "sort_compare A cmp b c = Before"
  shows "sort_compare A cmp a c = Before"
  using assms unfolding consistent_comparator_def by blast

text \<open>If \<open>a\<close> may stand before \<open>b\<close> and \<open>b\<close> before \<open>c\<close>, then \<open>a\<close> may stand before \<open>c\<close>.\<close>

lemma consistent_order_trans:
  assumes cc: "consistent_comparator A cmp S" and a: "a \<in> S" and b: "b \<in> S" and c: "c \<in> S"
    and ab: "sort_compare A cmp b a \<noteq> Before" and bc: "sort_compare A cmp c b \<noteq> Before"
  shows "sort_compare A cmp c a \<noteq> Before"
proof
  assume ca: "sort_compare A cmp c a = Before"
  show False
  proof (cases "sort_compare A cmp c b")
    case Before
    with bc show False by simp
  next
    case After
    then have "sort_compare A cmp b c = Before"
      using consistent_flip_after [OF cc c b] by simp
    with ca have "sort_compare A cmp b a = Before"
      using consistent_before_trans [OF cc b c a] by simp
    with ab show False by simp
  next
    case Same
    show False
    proof (cases "sort_compare A cmp b a")
      case Before
      with ab show False by simp
    next
      case sba: Same
      have "sort_compare A cmp c a = Same"
        using consistent_same_trans [OF cc c b a Same sba] .
      with ca show False by simp
    next
      case After
      then have "sort_compare A cmp a b = Before"
        using consistent_flip_after [OF cc b a] by simp
      with ca have "sort_compare A cmp c b = Before"
        using consistent_before_trans [OF cc c a b] by simp
      with Same show False by simp
    qed
  qed
qed

lemma mset_insert_sorted: "mset (insert_sorted A cmp x ys) = add_mset x (mset ys)"
  by (induction ys) simp_all

lemma set_insert_sorted: "set (insert_sorted A cmp x ys) = insert x (set ys)"
  using mset_insert_sorted [of A cmp x ys] by (metis set_mset_add_mset_insert set_mset_mset)

lemma insertion_sort_Cons:
  "insertion_sort A cmp (x # xs) = insert_sorted A cmp x (insertion_sort A cmp xs)"
  by (simp add: insertion_sort_def)

lemma mset_insertion_sort: "mset (insertion_sort A cmp xs) = mset xs"
  by (induction xs) (simp_all add: insertion_sort_Cons mset_insert_sorted, simp add: insertion_sort_def)

lemma set_insertion_sort: "set (insertion_sort A cmp xs) = set xs"
  using mset_insertion_sort [of A cmp xs] by (metis set_mset_mset)

lemma sorted_insert_sorted:
  assumes cc: "consistent_comparator A cmp S" and x: "x \<in> S" and ys: "set ys \<subseteq> S"
    and sorted: "sorted_wrt (\<lambda>a b. sort_compare A cmp b a \<noteq> Before) ys"
  shows "sorted_wrt (\<lambda>a b. sort_compare A cmp b a \<noteq> Before) (insert_sorted A cmp x ys)"
  using ys sorted
proof (induction ys)
  case Nil
  then show ?case by simp
next
  case (Cons y ys)
  have y: "y \<in> S" and rest: "set ys \<subseteq> S" using Cons.prems(1) by simp_all
  show ?case
  proof (cases "sort_compare A cmp x y = After")
    case True
    have ih: "sorted_wrt (\<lambda>a b. sort_compare A cmp b a \<noteq> Before) (insert_sorted A cmp x ys)"
      using Cons.IH rest Cons.prems(2) by simp
    have "\<forall>z \<in> set (insert_sorted A cmp x ys). sort_compare A cmp z y \<noteq> Before"
      using Cons.prems(2) True by (auto simp: set_insert_sorted)
    with True ih show ?thesis by simp
  next
    case False
    have xy: "sort_compare A cmp y x \<noteq> Before"
    proof
      assume "sort_compare A cmp y x = Before"
      then have "sort_compare A cmp x y = After"
        using consistent_flip_before [OF cc y x] by simp
      with False show False by simp
    qed
    have "\<forall>z \<in> set ys. sort_compare A cmp z x \<noteq> Before"
    proof
      fix z assume z: "z \<in> set ys"
      then have zS: "z \<in> S" using rest by blast
      from Cons.prems(2) z have "sort_compare A cmp z y \<noteq> Before" by simp
      with xy show "sort_compare A cmp z x \<noteq> Before"
        using consistent_order_trans [OF cc x y zS] by simp
    qed
    with False xy Cons.prems(2) show ?thesis by simp
  qed
qed

lemma filter_insert_sorted:
  assumes cc: "consistent_comparator A cmp S" and a: "a \<in> S" and x: "x \<in> S" and ys: "set ys \<subseteq> S"
  shows "filter (\<lambda>b. sort_compare A cmp a b = Same) (insert_sorted A cmp x ys) =
     (if sort_compare A cmp a x = Same then x # filter (\<lambda>b. sort_compare A cmp a b = Same) ys
      else filter (\<lambda>b. sort_compare A cmp a b = Same) ys)"
  using ys
proof (induction ys)
  case Nil
  then show ?case by simp
next
  case (Cons y ys)
  have y: "y \<in> S" and rest: "set ys \<subseteq> S" using Cons.prems by simp_all
  show ?case
  proof (cases "sort_compare A cmp x y = After")
    case False
    then show ?thesis by simp
  next
    case True
    have "\<not> (sort_compare A cmp a x = Same \<and> sort_compare A cmp a y = Same)"
    proof
      assume both: "sort_compare A cmp a x = Same \<and> sort_compare A cmp a y = Same"
      then have "sort_compare A cmp x a = Same"
        using consistent_same_sym [OF cc a x] by simp
      with both have "sort_compare A cmp x y = Same"
        using consistent_same_trans [OF cc x a y] by simp
      with True show False by simp
    qed
    with True Cons.IH [OF rest] show ?thesis by auto
  qed
qed

lemma insertion_sort_sorted_stable:
  assumes cc: "consistent_comparator A cmp S" and xs: "set xs \<subseteq> S"
  shows "sorted_wrt (\<lambda>a b. sort_compare A cmp b a \<noteq> Before) (insertion_sort A cmp xs) \<and>
         (\<forall>a \<in> S. filter (\<lambda>b. sort_compare A cmp a b = Same) (insertion_sort A cmp xs) =
                   filter (\<lambda>b. sort_compare A cmp a b = Same) xs)"
  using xs
proof (induction xs)
  case Nil
  then show ?case by (simp add: insertion_sort_def)
next
  case (Cons x xs)
  have x: "x \<in> S" and rest: "set xs \<subseteq> S" using Cons.prems by simp_all
  have sub: "set (insertion_sort A cmp xs) \<subseteq> S" using rest by (simp add: set_insertion_sort)
  from Cons.IH [OF rest] have
    s: "sorted_wrt (\<lambda>a b. sort_compare A cmp b a \<noteq> Before) (insertion_sort A cmp xs)" and
    f: "\<forall>a \<in> S. filter (\<lambda>b. sort_compare A cmp a b = Same) (insertion_sort A cmp xs) =
                   filter (\<lambda>b. sort_compare A cmp a b = Same) xs"
    by simp_all
  have "sorted_wrt (\<lambda>a b. sort_compare A cmp b a \<noteq> Before) (insertion_sort A cmp (x # xs))"
    unfolding insertion_sort_Cons using cc x sub s by (rule sorted_insert_sorted)
  moreover have "\<forall>a \<in> S. filter (\<lambda>b. sort_compare A cmp a b = Same) (insertion_sort A cmp (x # xs)) =
                   filter (\<lambda>b. sort_compare A cmp a b = Same) (x # xs)"
  proof
    fix a assume a: "a \<in> S"
    show "filter (\<lambda>b. sort_compare A cmp a b = Same) (insertion_sort A cmp (x # xs)) =
                   filter (\<lambda>b. sort_compare A cmp a b = Same) (x # xs)"
      unfolding insertion_sort_Cons
      using filter_insert_sorted [OF cc a x sub] f a by simp
  qed
  ultimately show ?case by (rule conjI)
qed

lemma insertion_sort_meets_standard: "meets_standard A (insertion_sort A)"
  unfolding meets_standard_def
proof (intro allI conjI impI)
  fix cmp :: "'b \<Rightarrow> 'b \<Rightarrow> 'a" and xs :: "'b list"
  show "mset (insertion_sort A cmp xs) = mset xs" by (rule mset_insertion_sort)
  assume cc: "consistent_comparator A cmp (set xs)"
  from insertion_sort_sorted_stable [OF cc order_refl]
  show "sorted_wrt (\<lambda>a b. sort_compare A cmp b a \<noteq> Before) (insertion_sort A cmp xs)"
    and "\<forall>a \<in> set xs. filter (\<lambda>b. sort_compare A cmp a b = Same) (insertion_sort A cmp xs) =
                   filter (\<lambda>b. sort_compare A cmp a b = Same) xs"
    by simp_all
qed

lemma mset_binary_insert: "mset (binary_insert A cmp work pivot) = add_mset pivot (mset work)"
proof -
  have "mset (take n work) + mset (drop n work) = mset work" for n
    by (metis append_take_drop_id mset_append)
  then show ?thesis by (simp add: binary_insert_def Let_def)
qed

lemma mset_foldl_binary_insert:
  "mset (foldl (binary_insert A cmp) run rest) = mset run + mset rest"
  by (induction rest arbitrary: run) (simp_all add: mset_binary_insert)

lemma mset_v8_sort: "mset (v8_sort A cmp xs) = mset xs"
proof (cases xs)
  case Nil
  then show ?thesis by (simp add: v8_sort_def)
next
  case (Cons x0 ys)
  show ?thesis
  proof (cases ys)
    case Nil
    with Cons show ?thesis by (simp add: v8_sort_def)
  next
    case inner: (Cons x1 rest)
    have "mset (take n xs) + mset (drop n xs) = mset xs" for n
      by (metis append_take_drop_id mset_append)
    then show ?thesis
      unfolding v8_sort_def Cons inner
      by (simp add: Let_def mset_foldl_binary_insert del: take_Suc_Cons drop_Suc_Cons)
  qed
qed

section \<open>The ranking\<close>

lemma sort_compare_scores:
  assumes "scores_ordered A S" and "score a \<in> S" and "score b \<in> S"
  shows "sort_compare A (by_score_desc A) a b =
     (if n_less A (score b) (score a) then Before
      else if n_less A (score a) (score b) then After else Same)"
proof -
  have "n_less A (n_sub A (score b) (score a)) (n_zero A) \<longleftrightarrow> n_less A (score b) (score a)"
    and "n_less A (n_zero A) (n_sub A (score b) (score a)) \<longleftrightarrow> n_less A (score a) (score b)"
    using assms unfolding scores_ordered_def by blast+
  then show ?thesis
    by (simp add: sort_compare_def by_score_desc_def)
qed

lemma scores_asym:
  assumes "scores_ordered A S" and "x \<in> S" and "y \<in> S" and "n_less A x y"
  shows "\<not> n_less A y x"
  using assms unfolding scores_ordered_def by blast

lemma scores_cotrans:
  assumes "scores_ordered A S" and "x \<in> S" and "y \<in> S" and "z \<in> S" and "n_less A x y"
  shows "n_less A x z \<or> n_less A z y"
  using assms unfolding scores_ordered_def by blast

lemma scores_trans:
  assumes so: "scores_ordered A S" and x: "x \<in> S" and y: "y \<in> S" and z: "z \<in> S"
    and xy: "n_less A x y" and yz: "n_less A y z"
  shows "n_less A x z"
proof -
  from scores_cotrans [OF so x y z xy] have "n_less A x z \<or> n_less A z y" .
  moreover have "\<not> n_less A z y" using scores_asym [OF so y z yz] .
  ultimately show ?thesis by simp
qed

lemma by_score_consistent:
  assumes so: "scores_ordered A (score ` X)"
  shows "consistent_comparator A (by_score_desc A) X"
proof -
  let ?S = "score ` X"
  have sc: "sort_compare A (by_score_desc A) a b =
     (if n_less A (score b) (score a) then Before
      else if n_less A (score a) (score b) then After else Same)"
    if "a \<in> X" "b \<in> X" for a b
    using sort_compare_scores [OF so] that by simp
  have irr: "\<not> n_less A (score a) (score a)" if "a \<in> X" for a
    using scores_asym [OF so, of "score a" "score a"] that by blast
  have asym: "\<not> n_less A (score b) (score a)" if "a \<in> X" "b \<in> X" "n_less A (score a) (score b)" for a b
    using scores_asym [OF so, of "score a" "score b"] that by blast
  have trans: "n_less A (score a) (score c)"
    if "a \<in> X" "b \<in> X" "c \<in> X" "n_less A (score a) (score b)" "n_less A (score b) (score c)" for a b c
    using scores_trans [OF so, of "score a" "score b" "score c"] that by blast
  have cot: "n_less A (score a) (score c) \<or> n_less A (score c) (score b)"
    if "a \<in> X" "b \<in> X" "c \<in> X" "n_less A (score a) (score b)" for a b c
    using scores_cotrans [OF so, of "score a" "score b" "score c"] that by blast
  have c1: "\<forall>a \<in> X. \<forall>b \<in> X. n_eq A (by_score_desc A a b) (by_score_desc A a b)"
    using so unfolding scores_ordered_def by_score_desc_def by blast
  have c2: "\<forall>a \<in> X. sort_compare A (by_score_desc A) a a = Same"
    using sc irr by simp
  have c3: "\<forall>a \<in> X. \<forall>b \<in> X. sort_compare A (by_score_desc A) a b = Same \<longrightarrow>
      sort_compare A (by_score_desc A) b a = Same"
    using sc by (auto split: if_splits)
  have c4: "\<forall>a \<in> X. \<forall>b \<in> X. \<forall>c \<in> X.
      sort_compare A (by_score_desc A) a b = Same \<and> sort_compare A (by_score_desc A) b c = Same \<longrightarrow>
      sort_compare A (by_score_desc A) a c = Same"
  proof (intro ballI impI)
    fix a b c assume m: "a \<in> X" "b \<in> X" "c \<in> X"
      and s: "sort_compare A (by_score_desc A) a b = Same \<and> sort_compare A (by_score_desc A) b c = Same"
    from s m have t: "\<not> n_less A (score b) (score a)" "\<not> n_less A (score a) (score b)"
      "\<not> n_less A (score c) (score b)" "\<not> n_less A (score b) (score c)"
      by (auto simp: sc split: if_splits)
    have "\<not> n_less A (score a) (score c)" using cot [OF m(1) m(3) m(2)] t by blast
    moreover have "\<not> n_less A (score c) (score a)" using cot [OF m(3) m(1) m(2)] t by blast
    ultimately show "sort_compare A (by_score_desc A) a c = Same" using m by (simp add: sc)
  qed
  have c5: "\<forall>a \<in> X. \<forall>b \<in> X. \<forall>c \<in> X.
      sort_compare A (by_score_desc A) a b = Before \<and> sort_compare A (by_score_desc A) b c = Before \<longrightarrow>
      sort_compare A (by_score_desc A) a c = Before"
  proof (intro ballI impI)
    fix a b c assume m: "a \<in> X" "b \<in> X" "c \<in> X"
      and s: "sort_compare A (by_score_desc A) a b = Before \<and> sort_compare A (by_score_desc A) b c = Before"
    from s m have "n_less A (score b) (score a)" "n_less A (score c) (score b)"
      by (auto simp: sc split: if_splits)
    then have "n_less A (score c) (score a)" using trans [OF m(3) m(2) m(1)] by simp
    then show "sort_compare A (by_score_desc A) a c = Before" using m by (simp add: sc)
  qed
  have c6: "\<forall>a \<in> X. \<forall>b \<in> X. \<forall>c \<in> X.
      sort_compare A (by_score_desc A) a b = After \<and> sort_compare A (by_score_desc A) b c = After \<longrightarrow>
      sort_compare A (by_score_desc A) a c = After"
  proof (intro ballI impI)
    fix a b c assume m: "a \<in> X" "b \<in> X" "c \<in> X"
      and s: "sort_compare A (by_score_desc A) a b = After \<and> sort_compare A (by_score_desc A) b c = After"
    from s m have "n_less A (score a) (score b)" "n_less A (score b) (score c)"
      by (auto simp: sc split: if_splits)
    then have l: "n_less A (score a) (score c)" using trans [OF m(1) m(2) m(3)] by simp
    then have "\<not> n_less A (score c) (score a)" using asym [OF m(1) m(3)] by simp
    with l show "sort_compare A (by_score_desc A) a c = After" using m by (simp add: sc)
  qed
  from c1 c2 c3 c4 c5 c6 show ?thesis unfolding consistent_comparator_def by blast
qed

lemma to_integer_nonneg: "0 \<le> x \<Longrightarrow> to_integer x = \<lfloor>x\<rfloor>"
  by (simp add: to_integer_def)

lemma slice0_nonneg: "0 \<le> k \<Longrightarrow> slice0 xs k = take (nat \<lfloor>k\<rfloor>) xs"
  by (simp add: slice0_def Let_def to_integer_nonneg min_def)

lemma slice0_negative:
  "to_integer k < 0 \<Longrightarrow> slice0 xs k = take (nat (int (length xs) + to_integer k)) xs"
  by (simp add: slice0_def Let_def max_def)

lemma slice0_zero: "to_integer k = 0 \<Longrightarrow> slice0 xs k = []"
  by (simp add: slice0_def Let_def)

lemma to_integer_minus_one: "to_integer (- 1) = - 1"
proof -
  have "\<lceil>- 1 :: real\<rceil> = - 1" by (rule ceiling_unique) simp_all
  then show ?thesis by (simp add: to_integer_def)
qed

lemma length_v8_sort: "length (v8_sort A cmp xs) = length xs"
  using mset_v8_sort [of A cmp xs] by (rule mset_eq_length)

subsection \<open>Finite scores\<close>

lemma nearest64_pos:
  assumes low: "2 powr (- 1074) \<le> z"
  shows "0 < nearest64 z"
proof -
  have "(0::real) < 2 powr (- 1074)" by simp
  then have zpos: "0 < z" using low by (rule less_le_trans)
  define e where "e = ulp_exponent z"
  define u :: real where "u = 2 powr of_int e"
  have upos: "0 < u" unfolding u_def by simp
  have ee: "e = max (\<lfloor>log 2 z\<rfloor> - 52) (- 1074)"
    using zpos by (simp add: e_def ulp_exponent_def)
  have "u \<le> z"
  proof (cases "\<lfloor>log 2 z\<rfloor> - 52 \<le> - 1074")
    case True
    with ee have "e = - 1074" by simp
    then have "u = 2 powr (- 1074)" unfolding u_def by simp
    with low show ?thesis by simp
  next
    case False
    with ee have "e = \<lfloor>log 2 z\<rfloor> - 52" by simp
    then have "of_int e \<le> log 2 z" by linarith
    then show ?thesis unfolding u_def using zpos by (simp add: le_log_iff)
  qed
  then have "1 \<le> z / u" using upos by (simp add: pos_le_divide_eq)
  then have "(1::int) \<le> \<lfloor>z / u\<rfloor>" by (simp only: le_floor_iff of_int_1)
  with round_half_even_bounds [of "z / u"] have "1 \<le> round_half_even (z / u)" by linarith
  then have "(0::real) < of_int (round_half_even (z / u))" by simp
  then have "0 < of_int (round_half_even (z / u)) * u" using upos by simp
  moreover have "nearest64 z = of_int (round_half_even (z / u)) * u"
    using zpos by (simp add: nearest64_def u_def e_def)
  ultimately show ?thesis by simp
qed

lemma fl_pos_sign:
  assumes "2 powr (- 1074) \<le> z"
  shows "f_less (Num 0) (fl z) \<and> \<not> f_less (fl z) (Num 0) \<and> f_eq (fl z) (fl z)"
proof -
  have "(0::real) < 2 powr (- 1074)" by simp
  then have zpos: "0 < z" using assms by (rule less_le_trans)
  have t: "(0::real) < 2 ^ 1024 - 2 ^ 970" by simp
  show ?thesis
  proof (cases "2 ^ 1024 - 2 ^ 970 \<le> z")
    case True
    then have "fl z = PInf" by (simp add: fl_def)
    then show ?thesis by simp
  next
    case False
    with zpos t have "fl z = Num (nearest64 z)" unfolding fl_def by auto
    with nearest64_pos [OF assms] show ?thesis by simp
  qed
qed

lemma f_neg_sign:
  assumes "f_less (Num 0) w \<and> \<not> f_less w (Num 0) \<and> f_eq w w"
  shows "f_less (f_neg w) (Num 0) \<and> \<not> f_less (Num 0) (f_neg w) \<and> f_eq (f_neg w) (f_neg w)"
  using assms by (cases w) simp_all

text \<open>Every finite double is a multiple of the least positive one, \<open>2^-1074\<close>. The
  rounded difference of two such numbers has the sign of the exact one: it is a multiple
  too, so it is zero or at least \<open>2^-1074\<close> in magnitude, and does not round to zero.\<close>

lemma fl_multiple_sign:
  fixes i :: int
  defines "z \<equiv> of_int i * 2 powr (- 1074)"
  shows "f_eq (fl z) (fl z) \<and> (f_less (fl z) (Num 0) \<longleftrightarrow> i < 0) \<and>
         (f_less (Num 0) (fl z) \<longleftrightarrow> 0 < i)"
proof -
  have g: "(0::real) < 2 powr (- 1074)" by simp
  consider "i = 0" | "1 \<le> i" | "i \<le> - 1" by linarith
  then show ?thesis
  proof cases
    case 1
    then show ?thesis by (simp add: z_def fl_zero)
  next
    case 2
    then have "(1::real) \<le> of_int i" by simp
    then have "1 * 2 powr (- 1074) \<le> z" unfolding z_def using g by (intro mult_right_mono) simp_all
    then have "2 powr (- 1074) \<le> z" by simp
    from fl_pos_sign [OF this] 2 show ?thesis by simp
  next
    case 3
    then have "(1::real) \<le> of_int (- i)" by simp
    then have "1 * 2 powr (- 1074) \<le> real_of_int (- i) * 2 powr (- 1074)"
      using g by (intro mult_right_mono) simp_all
    then have "2 powr (- 1074) \<le> - z" by (simp add: z_def)
    from f_neg_sign [OF fl_pos_sign [OF this]] have
      "f_less (fl z) (Num 0) \<and> \<not> f_less (Num 0) (fl z) \<and> f_eq (fl z) (fl z)"
      using fl_minus [of "- z"] by simp
    with 3 show ?thesis by simp
  qed
qed

lemma binary64_ops:
  "n_sub binary64 = f_sub" "n_less binary64 = f_less" "n_eq binary64 = f_eq"
  "n_zero binary64 = Num 0"
  by (simp_all add: binary64_def)

lemma multiple_less:
  "f_less (Num (of_int j * 2 powr (- 1074))) (Num (of_int k * 2 powr (- 1074))) \<longleftrightarrow> j < k"
proof -
  have "(0::real) < 2 powr (- 1074)" by simp
  then have "real_of_int j * 2 powr (- 1074) < real_of_int k * 2 powr (- 1074) \<longleftrightarrow>
      real_of_int j < real_of_int k"
    by (rule mult_less_cancel_right_pos)
  then show ?thesis by simp
qed

lemma multiple_sub:
  "f_sub (Num (of_int k * 2 powr (- 1074))) (Num (of_int j * 2 powr (- 1074))) =
     fl (of_int (k - j) * 2 powr (- 1074))"
proof -
  have "real_of_int k * 2 powr (- 1074) + - (real_of_int j * 2 powr (- 1074)) =
      real_of_int (k - j) * 2 powr (- 1074)"
    by (simp only: of_int_diff left_diff_distrib)
  then show ?thesis by (simp only: f_sub_def f_neg.simps f_add.simps)
qed

lemma multiples_scores_ordered:
  "scores_ordered binary64 ((\<lambda>k :: int. Num (of_int k * 2 powr (- 1074))) ` K)"
proof -
  let ?f = "\<lambda>k :: int. Num (of_int k * 2 powr (- 1074))"
  have diff: "n_eq binary64 (n_sub binary64 y x) (n_sub binary64 y x) \<and>
      (n_less binary64 (n_sub binary64 y x) (n_zero binary64) \<longleftrightarrow> n_less binary64 y x) \<and>
      (n_less binary64 (n_zero binary64) (n_sub binary64 y x) \<longleftrightarrow> n_less binary64 x y)"
    if "x \<in> ?f ` K" "y \<in> ?f ` K" for x y
  proof -
    from that obtain j k where x: "x = ?f j" and y: "y = ?f k" by blast
    have "k - j < 0 \<longleftrightarrow> k < j" "0 < k - j \<longleftrightarrow> j < k" by simp_all
    with fl_multiple_sign [of "k - j"] show ?thesis
      unfolding binary64_ops x y multiple_sub multiple_less by (simp only:)
  qed
  have asym: "n_less binary64 x y \<longrightarrow> \<not> n_less binary64 y x"
    if "x \<in> ?f ` K" "y \<in> ?f ` K" for x y
  proof -
    from that obtain j k where x: "x = ?f j" and y: "y = ?f k" by blast
    show ?thesis unfolding binary64_ops x y multiple_less by simp
  qed
  have cot: "n_less binary64 x y \<longrightarrow> n_less binary64 x z \<or> n_less binary64 z y"
    if "x \<in> ?f ` K" "y \<in> ?f ` K" "z \<in> ?f ` K" for x y z
  proof -
    from that obtain j k l where x: "x = ?f j" and y: "y = ?f k" and z: "z = ?f l" by blast
    show ?thesis unfolding binary64_ops x y z multiple_less by linarith
  qed
  show ?thesis
    unfolding scores_ordered_def
  proof (rule conjI [OF _ conjI])
    show "\<forall>x \<in> ?f ` K. \<forall>y \<in> ?f ` K.
        n_eq binary64 (n_sub binary64 y x) (n_sub binary64 y x) \<and>
        (n_less binary64 (n_sub binary64 y x) (n_zero binary64) \<longleftrightarrow> n_less binary64 y x) \<and>
        (n_less binary64 (n_zero binary64) (n_sub binary64 y x) \<longleftrightarrow> n_less binary64 x y)"
      by (intro ballI diff)
    show "\<forall>x \<in> ?f ` K. \<forall>y \<in> ?f ` K. n_less binary64 x y \<longrightarrow> \<not> n_less binary64 y x"
      by (intro ballI asym)
    show "\<forall>x \<in> ?f ` K. \<forall>y \<in> ?f ` K. \<forall>z \<in> ?f ` K.
        n_less binary64 x y \<longrightarrow> n_less binary64 x z \<or> n_less binary64 z y"
      by (intro ballI cot)
  qed
qed

lemma scores_ordered_subset:
  "scores_ordered A S \<Longrightarrow> T \<subseteq> S \<Longrightarrow> scores_ordered A T"
  unfolding scores_ordered_def by (meson subsetD)

lemma nearest64_multiple: "\<exists>k :: int. nearest64 x = of_int k * 2 powr (- 1074)"
proof (cases "x = 0")
  case True
  then have "nearest64 x = of_int 0 * 2 powr (- 1074)" by (simp add: nearest64_def)
  then show ?thesis by blast
next
  case False
  define e where "e = ulp_exponent x"
  define n where "n = round_half_even (x / 2 powr of_int e)"
  have "- 1074 \<le> e" by (simp add: e_def ulp_exponent_def)
  then obtain m :: nat where m: "e = int m - 1074" by (metis add_diff_cancel_right' diff_ge_0_iff_ge nonneg_int_cases uminus_add_conv_diff add.commute)
  have "(2::real) powr of_int e = 2 powr (real m + (- 1074))" using m by simp
  also have "\<dots> = 2 powr real m * 2 powr (- 1074)" by (rule powr_add)
  also have "(2::real) powr real m = 2 ^ m" by (rule powr_realpow) simp
  finally have "nearest64 x = of_int (n * 2 ^ m) * 2 powr (- 1074)"
    using False by (simp add: nearest64_def n_def e_def)
  then show ?thesis by blast
qed

lemma f_div_multiple:
  assumes "f_div x y = Num p"
  shows "\<exists>k :: int. p = of_int k * 2 powr (- 1074)"
proof -
  have zero: "\<exists>k :: int. (0::real) = of_int k * 2 powr (- 1074)"
    by (rule exI [of _ 0]) simp
  show ?thesis
  proof (cases x)
    case (Num a)
    show ?thesis
    proof (cases y)
      case (Num b)
      with \<open>x = Num a\<close> assms have "b \<noteq> 0 \<and> fl (a / b) = Num p"
        by (auto simp: signed_inf_def split: if_splits)
      then have "p = nearest64 (a / b)" by (auto simp: fl_def split: if_splits)
      then show ?thesis using nearest64_multiple by simp
    next
      case PInf
      with \<open>x = Num a\<close> assms zero show ?thesis by simp
    next
      case NInf
      with \<open>x = Num a\<close> assms zero show ?thesis by simp
    next
      case NaN
      with \<open>x = Num a\<close> assms show ?thesis by simp
    qed
  next
    case PInf
    with assms show ?thesis by (cases y) (simp_all add: signed_inf_def split: if_splits)
  next
    case NInf
    with assms show ?thesis by (cases y) (simp_all add: signed_inf_def split: if_splits)
  next
    case NaN
    with assms show ?thesis by simp
  qed
qed

lemma cosineSim_multiple:
  assumes "cosineSim binary64 a b = Num p"
  shows "\<exists>k :: int. p = of_int k * 2 powr (- 1074)"
proof -
  obtain d x y where "fold (cosineSim_step binary64 a b) [0..<length a] (n_zero binary64, n_zero binary64, n_zero binary64) = (d, x, y)"
    by (metis prod_cases3)
  with assms have "\<exists>u v. f_div u v = Num p"
    by (auto simp: cosineSim_def binary64_def)
  then show ?thesis using f_div_multiple by blast
qed

text \<open>So the comparator orders the scores of a store as soon as all of them are
  finite.\<close>

lemma finite_scores_ordered:
  assumes "\<forall>r \<in> set db. \<exists>p. cosineSim binary64 q (embedding r) = Num p"
  shows "scores_ordered binary64 (score ` set (map (with_score binary64 q) db))"
proof (rule scores_ordered_subset [OF multiples_scores_ordered [of UNIV]])
  show "score ` set (map (with_score binary64 q) db) \<subseteq>
      (\<lambda>k :: int. Num (of_int k * 2 powr (- 1074))) ` UNIV"
  proof
    fix s assume "s \<in> score ` set (map (with_score binary64 q) db)"
    then obtain r where r: "r \<in> set db" "s = cosineSim binary64 q (embedding r)"
      by (auto simp: with_score_def)
    with assms obtain p where sp: "s = Num p" by auto
    with r(2) have "cosineSim binary64 q (embedding r) = Num p" by simp
    then obtain k :: int where "p = of_int k * 2 powr (- 1074)"
      using cosineSim_multiple by blast
    with sp have "s = (\<lambda>k :: int. Num (of_int k * 2 powr (- 1074))) k" by simp
    then show "s \<in> (\<lambda>k :: int. Num (of_int k * 2 powr (- 1074))) ` UNIV"
      by (rule image_eqI) simp
  qed
qed

subsection \<open>The results of the search\<close>

text \<open>
  C1, as the specification states it, fails in two ways. For \<open>topK = -1\<close> and two
  records, \<open>slice(0, -1)\<close> returns one record, more than \<open>min(topK, N)\<close>. And for the
  query \<open>[1]\<close> and three records with the embeddings \<open>[0]\<close>, \<open>[]\<close> and \<open>[1]\<close>, the second
  score is NaN (the product with \<open>undefined\<close>), every comparison with it counts as zero,
  V8 takes the array for one ascending run and returns it as it is: score \<open>0\<close> stands
  before a greater score.
\<close>

theorem similarity_search_counterexample:
  "length (similarity_search binary64 (v8_sort binary64) [Num 1]
      [\<lparr>id_r = ''1-0'', text_r = ''a'', source = ''manual'', embedding = [Num 1]\<rparr>,
       \<lparr>id_r = ''2-0'', text_r = ''b'', source = ''manual'', embedding = [Num 0]\<rparr>] (- 1)) = 1 \<and>
   \<not> real (length (similarity_search binary64 (v8_sort binary64) [Num 1]
      [\<lparr>id_r = ''1-0'', text_r = ''a'', source = ''manual'', embedding = [Num 1]\<rparr>,
       \<lparr>id_r = ''2-0'', text_r = ''b'', source = ''manual'', embedding = [Num 0]\<rparr>] (- 1)))
     \<le> min (- 1) (real (length
      [\<lparr>id_r = ''1-0'', text_r = ''a'', source = ''manual'', embedding = [Num 1]\<rparr>,
       \<lparr>id_r = ''2-0'', text_r = ''b'', source = ''manual'', embedding = [Num 0]\<rparr>])) \<and>
   map id_r (similarity_search binary64 (v8_sort binary64) [Num 1]
      [\<lparr>id_r = ''1-0'', text_r = ''a'', source = ''manual'', embedding = [Num 0]\<rparr>,
       \<lparr>id_r = ''2-0'', text_r = ''b'', source = ''manual'', embedding = []\<rparr>,
       \<lparr>id_r = ''3-0'', text_r = ''c'', source = ''manual'', embedding = [Num 1]\<rparr>] 3)
     = [''1-0'', ''2-0'', ''3-0''] \<and>
   \<not> sorted_wrt (\<lambda>a b. \<not> n_less binary64 (score a) (score b))
      (similarity_search binary64 (v8_sort binary64) [Num 1]
      [\<lparr>id_r = ''1-0'', text_r = ''a'', source = ''manual'', embedding = [Num 0]\<rparr>,
       \<lparr>id_r = ''2-0'', text_r = ''b'', source = ''manual'', embedding = []\<rparr>,
       \<lparr>id_r = ''3-0'', text_r = ''c'', source = ''manual'', embedding = [Num 1]\<rparr>] 3)"
proof -
  obtain p where p: "cosineSim binary64 [Num 1] [Num 1] = Num p" "1 / 2048 \<le> p"
    using score_one by blast
  have ppos: "0 < p" using p(2) by (rule less_le_trans [rotated]) simp
  let ?two = "[\<lparr>id_r = ''1-0'', text_r = ''a'', source = ''manual'', embedding = [Num 1]\<rparr>,
       \<lparr>id_r = ''2-0'', text_r = ''b'', source = ''manual'', embedding = [Num 0]\<rparr>]"
  let ?three = "[\<lparr>id_r = ''1-0'', text_r = ''a'', source = ''manual'', embedding = [Num 0]\<rparr>,
       \<lparr>id_r = ''2-0'', text_r = ''b'', source = ''manual'', embedding = []\<rparr>,
       \<lparr>id_r = ''3-0'', text_r = ''c'', source = ''manual'', embedding = [Num 1]\<rparr>]"
  have "length (v8_sort binary64 (by_score_desc binary64) (map (with_score binary64 [Num 1]) ?two)) = 2"
    by (simp add: length_v8_sort)
  then have len: "length (similarity_search binary64 (v8_sort binary64) [Num 1] ?two (- 1)) = 1"
    by (simp add: similarity_search_def slice0_negative to_integer_minus_one)
  have scored: "map (with_score binary64 [Num 1]) ?three =
      [\<lparr>id_r = ''1-0'', text_r = ''a'', source = ''manual'', embedding = [Num 0], score = Num 0\<rparr>,
       \<lparr>id_r = ''2-0'', text_r = ''b'', source = ''manual'', embedding = [], score = NaN\<rparr>,
       \<lparr>id_r = ''3-0'', text_r = ''c'', source = ''manual'', embedding = [Num 1], score = Num p\<rparr>]"
    by (simp add: with_score_def score_zero score_undefined p(1))
  have run: "similarity_search binary64 (v8_sort binary64) [Num 1] ?three 3 =
      [\<lparr>id_r = ''1-0'', text_r = ''a'', source = ''manual'', embedding = [Num 0], score = Num 0\<rparr>,
       \<lparr>id_r = ''2-0'', text_r = ''b'', source = ''manual'', embedding = [], score = NaN\<rparr>,
       \<lparr>id_r = ''3-0'', text_r = ''c'', source = ''manual'', embedding = [Num 1], score = Num p\<rparr>]"
    unfolding similarity_search_def scored
    by (simp add: v8_sort_def sort_compare_def by_score_desc_def binary64_def f_sub_def
        slice0_nonneg Let_def)
  have ids: "map id_r (similarity_search binary64 (v8_sort binary64) [Num 1] ?three 3)
     = [''1-0'', ''2-0'', ''3-0'']"
    unfolding run by simp
  have unsorted: "\<not> sorted_wrt (\<lambda>a b. \<not> n_less binary64 (score a) (score b))
      (similarity_search binary64 (v8_sort binary64) [Num 1] ?three 3)"
    unfolding run using ppos by (simp add: binary64_def)
  from len ids unsorted show ?thesis by simp
qed

text \<open>
  C1, amended. For every store of \<open>N\<close> records and every query vector, with \<open>topK\<close> not
  negative and scores that the comparator \<open>b.score - a.score\<close> orders (as it does when
  they are finite numbers; the sort is then fixed by the standard), the similarity search
  of the chat flow returns at most \<open>min(topK, N)\<close> results: the first \<open>topK\<close> (rounded
  down) of the ranking of the whole store, which holds every record with its score, in
  descending order of score, records of equal score in the order of the store.
\<close>

theorem similarity_search_ranked:
  assumes "meets_standard A srt" and "0 \<le> topK"
    and "scores_ordered A (score ` set (map (with_score A q) db))"
  shows "\<exists>ranking.
           mset ranking = mset (map (with_score A q) db) \<and>
           sorted_wrt (\<lambda>a b. \<not> n_less A (score a) (score b)) ranking \<and>
           (\<forall>a \<in> set ranking.
              filter (\<lambda>b. tied A (score a) (score b)) ranking =
              filter (\<lambda>b. tied A (score a) (score b)) (map (with_score A q) db)) \<and>
           similarity_search A srt q db topK = take (nat \<lfloor>topK\<rfloor>) ranking \<and>
           real (length (similarity_search A srt q db topK)) \<le> min topK (real (length db))"
proof -
  let ?scored = "map (with_score A q) db"
  let ?cmp = "by_score_desc A"
  let ?ranking = "srt ?cmp ?scored"
  have cc: "consistent_comparator A ?cmp (set ?scored)"
    using assms(3) by (rule by_score_consistent)
  have perm: "mset ?ranking = mset ?scored"
    using assms(1) unfolding meets_standard_def by blast
  then have sets: "set ?ranking = set ?scored" by (metis set_mset_mset)
  have std: "sorted_wrt (\<lambda>a b. sort_compare A ?cmp b a \<noteq> Before) ?ranking"
    and stab: "\<forall>a \<in> set ?scored. filter (\<lambda>b. sort_compare A ?cmp a b = Same) ?ranking =
                 filter (\<lambda>b. sort_compare A ?cmp a b = Same) ?scored"
    using assms(1) cc unfolding meets_standard_def by blast+
  have sc: "sort_compare A ?cmp a b =
     (if n_less A (score b) (score a) then Before
      else if n_less A (score a) (score b) then After else Same)"
    if "a \<in> set ?scored" "b \<in> set ?scored" for a b
    using sort_compare_scores [OF assms(3)] that by blast
  have asym: "\<not> n_less A (score b) (score a)"
    if "a \<in> set ?scored" "b \<in> set ?scored" "n_less A (score a) (score b)" for a b
    using scores_asym [OF assms(3), of "score a" "score b"] that by blast
  have sorted: "sorted_wrt (\<lambda>a b. \<not> n_less A (score a) (score b)) ?ranking"
  proof (rule sorted_wrt_mono_rel [OF _ std])
    fix a b assume "a \<in> set ?ranking" "b \<in> set ?ranking" "sort_compare A ?cmp b a \<noteq> Before"
    then show "\<not> n_less A (score a) (score b)"
      using sc [of b a] sets by (auto split: if_splits)
  qed
  have same: "sort_compare A ?cmp a b = Same \<longleftrightarrow> tied A (score a) (score b)"
    if "a \<in> set ?scored" "b \<in> set ?scored" for a b
    using sc [OF that] by (auto simp: tied_def)
  have stable: "\<forall>a \<in> set ?ranking.
      filter (\<lambda>b. tied A (score a) (score b)) ?ranking =
      filter (\<lambda>b. tied A (score a) (score b)) ?scored"
  proof
    fix a assume "a \<in> set ?ranking"
    then have a: "a \<in> set ?scored" using sets by simp
    have "filter (\<lambda>b. tied A (score a) (score b)) ?ranking =
          filter (\<lambda>b. sort_compare A ?cmp a b = Same) ?ranking"
      using same [OF a] sets by (intro filter_cong) auto
    also have "\<dots> = filter (\<lambda>b. sort_compare A ?cmp a b = Same) ?scored"
      using stab a by blast
    also have "\<dots> = filter (\<lambda>b. tied A (score a) (score b)) ?scored"
      using same [OF a] by (intro filter_cong) auto
    finally show "filter (\<lambda>b. tied A (score a) (score b)) ?ranking =
      filter (\<lambda>b. tied A (score a) (score b)) ?scored" .
  qed
  have res: "similarity_search A srt q db topK = take (nat \<lfloor>topK\<rfloor>) ?ranking"
    using assms(2) by (simp add: similarity_search_def slice0_nonneg)
  have n: "length ?ranking = length db"
    using perm by (metis length_map mset_eq_length)
  have "real (nat \<lfloor>topK\<rfloor>) \<le> topK" using assms(2) by simp
  then have len: "real (length (similarity_search A srt q db topK)) \<le> min topK (real (length db))"
    unfolding res by (simp add: n min_def)
  from perm sorted stable res len show ?thesis by blast
qed

text \<open>The differences that the comparator takes of the scores \<open>0\<close> and \<open>p\<close>.\<close>

lemma example_differences:
  assumes "1 / 2048 \<le> p" and "p \<le> 1024"
  shows "\<exists>r. 0 < r \<and> f_sub (Num p) (Num 0) = Num r \<and> f_sub (Num 0) (Num p) = Num (- r) \<and>
             f_sub (Num 0) (Num 0) = Num 0 \<and> f_sub (Num p) (Num p) = Num 0"
proof -
  have "(1::real) / 2 ^ 1022 \<le> 1 / 2048" by simp
  then have lo: "1 / 2 ^ 1022 \<le> p" using assms(1) by (rule order_trans)
  have hi: "p \<le> 2 ^ 1023" using assms(2) by (rule order_trans) simp
  have ppos: "0 < p" using assms(1) by (rule less_le_trans [rotated]) simp
  obtain r where r: "fl p = Num r" "p / 2 \<le> r"
    using fl_pos_bounds [OF lo hi] by blast
  have rpos: "0 < r" using r(2) ppos by simp
  have "f_sub (Num p) (Num 0) = Num r" using r(1) by (simp add: f_sub_def)
  moreover have "f_sub (Num 0) (Num p) = Num (- r)"
    using fl_minus [of p] r(1) by (simp add: f_sub_def)
  moreover have "f_sub (Num 0) (Num 0) = Num 0" by (simp add: f_sub_def fl_zero)
  moreover have "f_sub (Num p) (Num p) = Num 0" by (simp add: f_sub_def fl_zero)
  ultimately show ?thesis using rpos by blast
qed

lemma example_scores_ordered:
  assumes "1 / 2048 \<le> p" and "p \<le> 1024"
  shows "scores_ordered binary64 {Num 0, Num p}"
proof -
  obtain r where r: "0 < r" "f_sub (Num p) (Num 0) = Num r" "f_sub (Num 0) (Num p) = Num (- r)"
    "f_sub (Num 0) (Num 0) = Num 0" "f_sub (Num p) (Num p) = Num 0"
    using example_differences [OF assms] by blast
  have ppos: "0 < p" using assms(1) by (rule less_le_trans [rotated]) simp
  show ?thesis
    unfolding scores_ordered_def using r ppos by (simp add: binary64_def)
qed

theorem similarity_search_ranked_witness:
  "map id_r (similarity_search binary64 (insertion_sort binary64) [Num 1]
      [\<lparr>id_r = ''1-0'', text_r = ''a'', source = ''manual'', embedding = [Num 0]\<rparr>,
       \<lparr>id_r = ''2-0'', text_r = ''b'', source = ''manual'', embedding = [Num 1]\<rparr>,
       \<lparr>id_r = ''3-0'', text_r = ''c'', source = ''manual'', embedding = [Num 1]\<rparr>] 2)
     = [''2-0'', ''3-0''] \<and>
   (\<exists>ranking.
      mset ranking = mset (map (with_score binary64 [Num 1])
        [\<lparr>id_r = ''1-0'', text_r = ''a'', source = ''manual'', embedding = [Num 0]\<rparr>,
         \<lparr>id_r = ''2-0'', text_r = ''b'', source = ''manual'', embedding = [Num 1]\<rparr>,
         \<lparr>id_r = ''3-0'', text_r = ''c'', source = ''manual'', embedding = [Num 1]\<rparr>]) \<and>
      sorted_wrt (\<lambda>a b. \<not> n_less binary64 (score a) (score b)) ranking \<and>
      similarity_search binary64 (insertion_sort binary64) [Num 1]
        [\<lparr>id_r = ''1-0'', text_r = ''a'', source = ''manual'', embedding = [Num 0]\<rparr>,
         \<lparr>id_r = ''2-0'', text_r = ''b'', source = ''manual'', embedding = [Num 1]\<rparr>,
         \<lparr>id_r = ''3-0'', text_r = ''c'', source = ''manual'', embedding = [Num 1]\<rparr>] 2
        = take 2 ranking)"
proof -
  let ?db = "[\<lparr>id_r = ''1-0'', text_r = ''a'', source = ''manual'', embedding = [Num 0]\<rparr>,
       \<lparr>id_r = ''2-0'', text_r = ''b'', source = ''manual'', embedding = [Num 1]\<rparr>,
       \<lparr>id_r = ''3-0'', text_r = ''c'', source = ''manual'', embedding = [Num 1]\<rparr>]"
  obtain p where p: "cosineSim binary64 [Num 1] [Num 1] = Num p" "1 / 2048 \<le> p" "p \<le> 1024"
    using score_one by blast
  obtain r where r: "0 < r" "f_sub (Num p) (Num 0) = Num r" "f_sub (Num 0) (Num p) = Num (- r)"
    "f_sub (Num 0) (Num 0) = Num 0" "f_sub (Num p) (Num p) = Num 0"
    using example_differences [OF p(2,3)] by blast
  have scored: "map (with_score binary64 [Num 1]) ?db =
      [\<lparr>id_r = ''1-0'', text_r = ''a'', source = ''manual'', embedding = [Num 0], score = Num 0\<rparr>,
       \<lparr>id_r = ''2-0'', text_r = ''b'', source = ''manual'', embedding = [Num 1], score = Num p\<rparr>,
       \<lparr>id_r = ''3-0'', text_r = ''c'', source = ''manual'', embedding = [Num 1], score = Num p\<rparr>]"
    by (simp add: with_score_def score_zero p(1))
  have "score ` set (map (with_score binary64 [Num 1]) ?db) = {Num 0, Num p}"
    unfolding scored by auto
  then have so: "scores_ordered binary64 (score ` set (map (with_score binary64 [Num 1]) ?db))"
    using example_scores_ordered [OF p(2,3)] by simp
  have two: "(0::real) \<le> 2" by simp
  from similarity_search_ranked [OF insertion_sort_meets_standard two so]
  obtain ranking where
    "mset ranking = mset (map (with_score binary64 [Num 1]) ?db)"
    "sorted_wrt (\<lambda>a b. \<not> n_less binary64 (score a) (score b)) ranking"
    "similarity_search binary64 (insertion_sort binary64) [Num 1] ?db 2 = take (nat \<lfloor>2 :: real\<rfloor>) ranking"
    by blast
  then have ex: "\<exists>ranking.
      mset ranking = mset (map (with_score binary64 [Num 1]) ?db) \<and>
      sorted_wrt (\<lambda>a b. \<not> n_less binary64 (score a) (score b)) ranking \<and>
      similarity_search binary64 (insertion_sort binary64) [Num 1] ?db 2 = take 2 ranking"
    by auto
  have run: "similarity_search binary64 (insertion_sort binary64) [Num 1] ?db 2 =
      [\<lparr>id_r = ''2-0'', text_r = ''b'', source = ''manual'', embedding = [Num 1], score = Num p\<rparr>,
       \<lparr>id_r = ''3-0'', text_r = ''c'', source = ''manual'', embedding = [Num 1], score = Num p\<rparr>]"
    unfolding similarity_search_def scored
    using r by (simp add: insertion_sort_def sort_compare_def by_score_desc_def binary64_def
        slice0_nonneg)
  have ids: "map id_r (similarity_search binary64 (insertion_sort binary64) [Num 1] ?db 2)
     = [''2-0'', ''3-0'']"
    unfolding run by simp
  from ids ex show ?thesis by (rule conjI)
qed

section \<open>The request handlers\<close>

lemma trim_nonblank_nonempty: "trim s \<noteq> [] \<Longrightarrow> s \<noteq> []"
  by (auto simp: trim_def)

text \<open>
  C6. A chat request with a non-blank question against an empty store (no file, or a
  file holding no records) is answered with status 400 and the message
  \<open>No documents indexed yet\<close>; the store has been read, and neither the embedder nor
  the language model has been called.
\<close>

theorem post_chat_empty_store:
  assumes "trim question \<noteq> []"
    and "store_file w = None \<or> store_file w = Some []"
  shows "post_chat A srt embedder completion (Some question) body_topK w =
           (\<lparr>status = 400, json = ErrorBody ''No documents indexed yet''\<rparr>,
            w\<lparr>trace := trace w @ [LoadDb]\<rparr>)"
proof -
  have q: "question \<noteq> []" using assms(1) by (rule trim_nonblank_nonempty)
  have "fst (loadDb w) = []" using assms(2) by (auto simp: loadDb_def)
  with q assms(1) show ?thesis
    by (simp add: post_chat_def loadDb_def split: prod.splits)
qed

theorem post_chat_empty_store_witness:
  "trim ''hello'' \<noteq> [] \<and>
   post_chat binary64 (v8_sort binary64) (\<lambda>t. Inr [Num 1]) (\<lambda>p. Inr ''an answer'') (Some ''hello'') (Some 3)
       \<lparr>store_file = Some [], trace = []\<rparr> =
     (\<lparr>status = 400, json = ErrorBody ''No documents indexed yet''\<rparr>,
      \<lparr>store_file = Some [], trace = [LoadDb]\<rparr>)"
proof -
  have t: "trim ''hello'' \<noteq> []" by (simp add: trim_def is_ws_def)
  have s: "store_file \<lparr>store_file = Some [], trace = []\<rparr> = None \<or>
           store_file \<lparr>store_file = Some [], trace = []\<rparr> = Some []" by simp
  from post_chat_empty_store [OF t s] t
  show ?thesis by simp
qed

text \<open>
  C9, as stated, fails for \<open>topK = -1\<close> on a store of two records: the response
  carries one chunk, the better of the two, not an empty array.
\<close>

theorem post_chat_negative_topK_counterexample:
  "fst (post_chat binary64 (v8_sort binary64) (\<lambda>t. Inr [Num 1]) (\<lambda>p. Inr ''ok'')
      (Some ''q'') (Some (- 1))
      \<lparr>store_file = Some
          [\<lparr>id_r = ''1-0'', text_r = ''a'', source = ''manual'', embedding = [Num 1]\<rparr>,
           \<lparr>id_r = ''2-0'', text_r = ''b'', source = ''manual'', embedding = [Num 0]\<rparr>],
        trace = []\<rparr>) =
     \<lparr>status = 200,
      json = Answer ''ok''
        [\<lparr>chunk_id = ''1-0'', chunk_text = ''a'', chunk_source = ''manual'',
          chunk_score = cosineSim binary64 [Num 1] [Num 1]\<rparr>]\<rparr>"
proof -
  let ?db = "[\<lparr>id_r = ''1-0'', text_r = ''a'', source = ''manual'', embedding = [Num 1]\<rparr>,
           \<lparr>id_r = ''2-0'', text_r = ''b'', source = ''manual'', embedding = [Num 0]\<rparr>]"
  obtain p where p: "cosineSim binary64 [Num 1] [Num 1] = Num p" "1 / 2048 \<le> p" "p \<le> 1024"
    using score_one by blast
  obtain r where r: "0 < r" "f_sub (Num p) (Num 0) = Num r"
    using example_differences [OF p(2,3)] by blast
  have scored: "map (with_score binary64 [Num 1]) ?db =
      [\<lparr>id_r = ''1-0'', text_r = ''a'', source = ''manual'', embedding = [Num 1], score = Num p\<rparr>,
       \<lparr>id_r = ''2-0'', text_r = ''b'', source = ''manual'', embedding = [Num 0], score = Num 0\<rparr>]"
    by (simp add: with_score_def score_zero p(1))
  have run: "similarity_search binary64 (v8_sort binary64) [Num 1] ?db (- 1) =
      [\<lparr>id_r = ''1-0'', text_r = ''a'', source = ''manual'', embedding = [Num 1], score = Num p\<rparr>]"
    unfolding similarity_search_def scored
    using r by (simp add: v8_sort_def sort_compare_def by_score_desc_def binary64_def
        slice0_negative to_integer_minus_one)
  have t: "trim ''q'' \<noteq> []" by (simp add: trim_def is_ws_def)
  show ?thesis
    unfolding p(1)
    using t by (simp add: post_chat_def loadDb_def computeEmbedding_def Let_def run to_chat_chunk_def)
qed

text \<open>
  C9, amended. For every chat request with a non-blank question against a non-empty
  store of \<open>N\<close> records, if the supplied \<open>topK\<close> is zero or negative the endpoint signals
  no error for it (\<open>topK\<close> is accepted unvalidated): when embedding and completion
  succeed the response has status 200, and the store is left as it was. Its chunks are
  none when \<open>topK\<close> is above \<open>-1\<close>; otherwise \<open>slice(0, topK)\<close> counts from the end of
  the sorted array, and the chunks are its first \<open>N + \<lceil>topK\<rceil>\<close> records (none when that
  is not positive). The sorted array holds the records of the store with their scores.
\<close>

theorem post_chat_nonpositive_topK:
  assumes "trim question \<noteq> []" and "store_file w = Some db" and "db \<noteq> []" and "topK \<le> 0"
    and "embedder question = Inr qEmbedding"
    and "completion (user_prompt (similarity_search A srt qEmbedding db topK) question) = Inr answer"
    and "\<forall>cmp xs. mset (srt cmp xs) = mset xs"
  shows "fst (post_chat A srt embedder completion (Some question) (Some topK) w) =
           \<lparr>status = 200,
            json = Answer answer (map to_chat_chunk (similarity_search A srt qEmbedding db topK))\<rparr> \<and>
         similarity_search A srt qEmbedding db topK =
           (if - 1 < topK then []
            else take (nat (int (length db) + \<lceil>topK\<rceil>))
                   (srt (by_score_desc A) (map (with_score A qEmbedding) db))) \<and>
         length (similarity_search A srt qEmbedding db topK) =
           (if - 1 < topK then 0 else nat (int (length db) + \<lceil>topK\<rceil>)) \<and>
         mset (srt (by_score_desc A) (map (with_score A qEmbedding) db)) =
           mset (map (with_score A qEmbedding) db) \<and>
         store_file (snd (post_chat A srt embedder completion (Some question) (Some topK) w)) =
           store_file w"
proof -
  let ?sorted = "srt (by_score_desc A) (map (with_score A qEmbedding) db)"
  have q: "question \<noteq> []" using assms(1) by (rule trim_nonblank_nonempty)
  have run: "post_chat A srt embedder completion (Some question) (Some topK) w =
      (\<lparr>status = 200,
        json = Answer answer (map to_chat_chunk (similarity_search A srt qEmbedding db topK))\<rparr>,
       w\<lparr>trace := trace w @ [LoadDb, Embed question,
            Complete (user_prompt (similarity_search A srt qEmbedding db topK) question)]\<rparr>)"
    using q assms(1,2,3,5,6) by (simp add: post_chat_def loadDb_def computeEmbedding_def Let_def)
  have perm: "mset ?sorted = mset (map (with_score A qEmbedding) db)"
    using assms(7) by blast
  then have n: "length ?sorted = length db" by (metis length_map mset_eq_length)
  have sel: "similarity_search A srt qEmbedding db topK =
           (if - 1 < topK then [] else take (nat (int (length db) + \<lceil>topK\<rceil>)) ?sorted)"
  proof (cases "- 1 < topK")
    case True
    have "to_integer topK = 0"
    proof (cases "topK < 0")
      case neg: True
      have "\<lceil>topK\<rceil> = 0" using True neg by (intro ceiling_unique) simp_all
      with neg show ?thesis by (simp add: to_integer_def)
    next
      case False
      with assms(4) have "topK = 0" by simp
      then show ?thesis by (simp add: to_integer_def)
    qed
    with True show ?thesis by (simp add: similarity_search_def slice0_zero)
  next
    case False
    then have le: "topK \<le> - 1" by simp
    then have "\<lceil>topK\<rceil> \<le> - 1" by (simp add: ceiling_le_iff)
    moreover have ti: "to_integer topK = \<lceil>topK\<rceil>" using le by (simp add: to_integer_def)
    ultimately have lt: "to_integer topK < 0" by linarith
    have "slice0 ?sorted topK = take (nat (int (length db) + \<lceil>topK\<rceil>)) ?sorted"
      using slice0_negative [OF lt, of ?sorted] by (simp only: ti n)
    with le show ?thesis
      by (simp add: similarity_search_def)
  qed
  have len: "length (similarity_search A srt qEmbedding db topK) =
           (if - 1 < topK then 0 else nat (int (length db) + \<lceil>topK\<rceil>))"
  proof (cases "- 1 < topK")
    case True
    then show ?thesis by (simp add: sel)
  next
    case False
    then have "\<lceil>topK\<rceil> \<le> - 1" by (simp add: ceiling_le_iff)
    then have "nat (int (length db) + \<lceil>topK\<rceil>) \<le> length db" by simp
    with False show ?thesis by (simp add: sel n)
  qed
  from run sel len perm show ?thesis by simp
qed

theorem post_chat_nonpositive_topK_witness:
  "length (similarity_search binary64 (v8_sort binary64) [Num 1]
      [\<lparr>id_r = ''1-0'', text_r = ''a'', source = ''manual'', embedding = [Num 1]\<rparr>,
       \<lparr>id_r = ''2-0'', text_r = ''b'', source = ''manual'', embedding = [Num 0]\<rparr>,
       \<lparr>id_r = ''3-0'', text_r = ''c'', source = ''manual'', embedding = [Num 1]\<rparr>] (- 1)) = 2 \<and>
   fst (post_chat binary64 (v8_sort binary64) (\<lambda>t. Inr [Num 1]) (\<lambda>p. Inr ''ok'')
      (Some ''q'') (Some (- 1))
      \<lparr>store_file = Some
          [\<lparr>id_r = ''1-0'', text_r = ''a'', source = ''manual'', embedding = [Num 1]\<rparr>,
           \<lparr>id_r = ''2-0'', text_r = ''b'', source = ''manual'', embedding = [Num 0]\<rparr>,
           \<lparr>id_r = ''3-0'', text_r = ''c'', source = ''manual'', embedding = [Num 1]\<rparr>],
        trace = []\<rparr>) =
     \<lparr>status = 200,
      json = Answer ''ok'' (map to_chat_chunk
        (similarity_search binary64 (v8_sort binary64) [Num 1]
          [\<lparr>id_r = ''1-0'', text_r = ''a'', source = ''manual'', embedding = [Num 1]\<rparr>,
           \<lparr>id_r = ''2-0'', text_r = ''b'', source = ''manual'', embedding = [Num 0]\<rparr>,
           \<lparr>id_r = ''3-0'', text_r = ''c'', source = ''manual'', embedding = [Num 1]\<rparr>] (- 1)))\<rparr>"
proof -
  let ?db = "[\<lparr>id_r = ''1-0'', text_r = ''a'', source = ''manual'', embedding = [Num 1]\<rparr>,
           \<lparr>id_r = ''2-0'', text_r = ''b'', source = ''manual'', embedding = [Num 0]\<rparr>,
           \<lparr>id_r = ''3-0'', text_r = ''c'', source = ''manual'', embedding = [Num 1]\<rparr>]"
  let ?w = "\<lparr>store_file = Some ?db, trace = []\<rparr>"
  have t: "trim ''q'' \<noteq> []" by (simp add: trim_def is_ws_def)
  have s: "store_file ?w = Some ?db" by simp
  have ne: "?db \<noteq> []" by simp
  have k: "(- 1 :: real) \<le> 0" by simp
  have e: "(\<lambda>t. Inr [Num 1]) ''q'' = (Inr [Num 1] :: string + jsnum list)" by simp
  have c: "(\<lambda>p. Inr ''ok'') (user_prompt (similarity_search binary64 (v8_sort binary64) [Num 1] ?db (- 1)) ''q'')
      = (Inr ''ok'' :: string + string)" by simp
  have m: "\<forall>cmp xs. mset (v8_sort binary64 cmp xs) = mset (xs :: jsnum scored_record list)"
    by (simp add: mset_v8_sort)
  have c1: "\<lceil>- 1 :: real\<rceil> = - 1" by (rule ceiling_unique) simp_all
  from post_chat_nonpositive_topK [OF t s ne k e c m]
  have r: "fst (post_chat binary64 (v8_sort binary64) (\<lambda>t. Inr [Num 1]) (\<lambda>p. Inr ''ok'')
        (Some ''q'') (Some (- 1)) ?w) =
      \<lparr>status = 200, json = Answer ''ok'' (map to_chat_chunk
        (similarity_search binary64 (v8_sort binary64) [Num 1] ?db (- 1)))\<rparr>"
    and l: "length (similarity_search binary64 (v8_sort binary64) [Num 1] ?db (- 1)) =
      (if (- 1 :: real) < - 1 then 0 else nat (int (length ?db) + \<lceil>- 1 :: real\<rceil>))"
    by blast+
  from l have "length (similarity_search binary64 (v8_sort binary64) [Num 1] ?db (- 1)) = 2"
    unfolding c1 by simp
  then show ?thesis using r by (rule conjI)
qed

text \<open>
  C3. Deletion, for every store and every source string: when no record has that
  source the answer is 404 and nothing is written; otherwise the store is rewritten
  with the records of another source, in their order, and the answer is 200 with the
  number of records of that source as \<open>removed\<close> and the number of the others as
  \<open>remaining\<close>.
\<close>

theorem deleteBySource_exact:
  "(case store_file w of None \<Rightarrow> [] | Some recs \<Rightarrow> recs) = db \<Longrightarrow>
   (if \<forall>r \<in> set db. source r \<noteq> src
    then deleteBySource src w =
           (\<lparr>status = 404, json = ErrorSource ''No vectors found for source'' src\<rparr>,
            w\<lparr>trace := trace w @ [LoadDb]\<rparr>)
    else deleteBySource src w =
           (\<lparr>status = 200,
             json = Removed (length (filter (\<lambda>r. source r = src) db))
                      (length (filter (\<lambda>r. source r \<noteq> src) db)) src\<rparr>,
            \<lparr>store_file = Some (filter (\<lambda>r. source r \<noteq> src) db),
             trace = trace w @ [LoadDb, SaveDb (filter (\<lambda>r. source r \<noteq> src) db)]\<rparr>))"
proof -
  assume db: "(case store_file w of None \<Rightarrow> [] | Some recs \<Rightarrow> recs) = db"
  have split: "length db =
      length (filter (\<lambda>r. source r = src) db) + length (filter (\<lambda>r. source r \<noteq> src) db)"
    using sum_length_filter_compl [of "\<lambda>r. source r = src" db] by simp
  have none: "(\<forall>r \<in> set db. source r \<noteq> src) \<longleftrightarrow> length (filter (\<lambda>r. source r = src) db) = 0"
    by (simp add: filter_empty_conv)
  show ?thesis
  proof (cases "\<forall>r \<in> set db. source r \<noteq> src")
    case True
    with none split have "length db - length (filter (\<lambda>r. source r \<noteq> src) db) = 0" by simp
    with True db show ?thesis
      by (simp add: deleteBySource_def loadDb_def Let_def)
  next
    case False
    with none have pos: "0 < length (filter (\<lambda>r. source r = src) db)" by simp
    with split have "length db - length (filter (\<lambda>r. source r \<noteq> src) db) =
        length (filter (\<lambda>r. source r = src) db)" by simp
    moreover from split pos
    have "\<not> length db \<le> length (filter (\<lambda>r. source r \<noteq> src) db)" by linarith
    ultimately show ?thesis
      using False db by (simp add: deleteBySource_def loadDb_def saveDb_def Let_def)
  qed
qed

theorem deleteBySource_exact_witness:
  "deleteBySource ''geo''
     \<lparr>store_file = Some
        [\<lparr>id_r = ''1-0'', text_r = ''Paris'', source = ''geo'', embedding = [Num 1]\<rparr>,
         \<lparr>id_r = ''2-0'', text_r = ''note'', source = ''manual'', embedding = [Num 1]\<rparr>,
         \<lparr>id_r = ''2-1'', text_r = ''Rome'', source = ''geo'', embedding = [Num 1]\<rparr>],
      trace = []\<rparr> =
     (\<lparr>status = 200, json = Removed 2 1 ''geo''\<rparr>,
      \<lparr>store_file = Some
         [\<lparr>id_r = ''2-0'', text_r = ''note'', source = ''manual'', embedding = [Num 1]\<rparr>],
       trace = [LoadDb, SaveDb
         [\<lparr>id_r = ''2-0'', text_r = ''note'', source = ''manual'', embedding = [Num 1]\<rparr>]]\<rparr>) \<and>
   deleteBySource ''geo ''
     \<lparr>store_file = Some
        [\<lparr>id_r = ''1-0'', text_r = ''Paris'', source = ''geo'', embedding = [Num 1]\<rparr>],
      trace = []\<rparr> =
     (\<lparr>status = 404, json = ErrorSource ''No vectors found for source'' ''geo ''\<rparr>,
      \<lparr>store_file = Some
         [\<lparr>id_r = ''1-0'', text_r = ''Paris'', source = ''geo'', embedding = [Num 1]\<rparr>],
       trace = [LoadDb]\<rparr>)"
proof -
  let ?w = "\<lparr>store_file = Some
        [\<lparr>id_r = ''1-0'', text_r = ''Paris'', source = ''geo'', embedding = [Num 1]\<rparr>,
         \<lparr>id_r = ''2-0'', text_r = ''note'', source = ''manual'', embedding = [Num 1]\<rparr>,
         \<lparr>id_r = ''2-1'', text_r = ''Rome'', source = ''geo'', embedding = [Num 1]\<rparr>],
      trace = []\<rparr>"
  let ?v = "\<lparr>store_file = Some
        [\<lparr>id_r = ''1-0'', text_r = ''Paris'', source = ''geo'', embedding = [Num 1]\<rparr>],
      trace = []\<rparr>"
  from deleteBySource_exact [OF refl, of ?w "''geo''"]
  have hit: "deleteBySource ''geo'' ?w =
     (\<lparr>status = 200, json = Removed 2 1 ''geo''\<rparr>,
      \<lparr>store_file = Some
         [\<lparr>id_r = ''2-0'', text_r = ''note'', source = ''manual'', embedding = [Num 1]\<rparr>],
       trace = [LoadDb, SaveDb
         [\<lparr>id_r = ''2-0'', text_r = ''note'', source = ''manual'', embedding = [Num 1]\<rparr>]]\<rparr>)"
    by simp
  from deleteBySource_exact [OF refl, of ?v "''geo ''"]
  have miss: "deleteBySource ''geo '' ?v =
     (\<lparr>status = 404, json = ErrorSource ''No vectors found for source'' ''geo ''\<rparr>,
      \<lparr>store_file = Some
         [\<lparr>id_r = ''1-0'', text_r = ''Paris'', source = ''geo'', embedding = [Num 1]\<rparr>],
       trace = [LoadDb]\<rparr>)"
    by simp
  from hit miss show ?thesis by (rule conjI)
qed

text \<open>
  C10. When the decoded and trimmed path parameter is blank, the delete endpoint
  answers 400, and the world is as before: the store is neither read nor written.
\<close>

theorem delete_docs_blank_source:
  assumes "decoder (case param of None \<Rightarrow> [] | Some p \<Rightarrow> p) = Inr decoded"
    and "trim decoded = []"
  shows "delete_docs decoder param w =
           (\<lparr>status = 400, json = ErrorBody ''source is required''\<rparr>, w)"
  using assms by (simp add: delete_docs_def)

theorem delete_docs_blank_source_witness:
  "trim ''  '' = [] \<and>
   delete_docs Inr (Some ''  '')
     \<lparr>store_file = Some
        [\<lparr>id_r = ''1-0'', text_r = ''Paris'', source = ''  '', embedding = [Num 1]\<rparr>],
      trace = []\<rparr> =
     (\<lparr>status = 400, json = ErrorBody ''source is required''\<rparr>,
      \<lparr>store_file = Some
        [\<lparr>id_r = ''1-0'', text_r = ''Paris'', source = ''  '', embedding = [Num 1]\<rparr>],
      trace = []\<rparr>)"
proof -
  have d: "(Inr :: string \<Rightarrow> string + string) (case Some ''  '' of None \<Rightarrow> [] | Some p \<Rightarrow> p) = Inr ''  ''"
    by simp
  have t: "trim ''  '' = []" by (simp add: trim_def is_ws_def)
  from t delete_docs_blank_source [of Inr "Some ''  ''" "''  ''", OF d t] show ?thesis by (rule conjI)
qed

lemma embed_loop_world:
  "embed_loop embedder clock src cs i w = (res, w') \<Longrightarrow>
     store_file w' = store_file w \<and> (\<exists>called. trace w' = trace w @ map Embed called)"
proof (induction cs arbitrary: i w res w')
  case Nil
  then show ?case by simp
next
  case (Cons c cs)
  let ?w1 = "w\<lparr>trace := trace w @ [Embed c]\<rparr>"
  show ?case
  proof (cases "embedder c")
    case (Inl err)
    with Cons.prems have "w' = ?w1" by (simp add: computeEmbedding_def)
    then have "store_file w' = store_file w" "trace w' = trace w @ map Embed [c]" by simp_all
    then show ?thesis by blast
  next
    case (Inr e)
    obtain r2 w2 where rest: "embed_loop embedder clock src cs (Suc i) ?w1 = (r2, w2)"
      by (cases "embed_loop embedder clock src cs (Suc i) ?w1")
    from Cons.IH [OF rest] obtain called where
      st: "store_file w2 = store_file w" and tr: "trace w2 = trace w @ [Embed c] @ map Embed called"
      by auto
    from Cons.prems Inr rest have "w' = w2"
      by (auto simp: computeEmbedding_def split: sum.splits)
    with st tr have "store_file w' = store_file w" "trace w' = trace w @ map Embed (c # called)"
      by simp_all
    then show ?thesis by blast
  qed
qed

lemma embed_loop_fails:
  "\<exists>c \<in> set cs. isl (embedder c) \<Longrightarrow> isl (fst (embed_loop embedder clock src cs i w))"
proof (induction cs arbitrary: i w)
  case Nil
  then show ?case by simp
next
  case (Cons c cs)
  show ?case
  proof (cases "embedder c")
    case (Inl err)
    then show ?thesis by (simp add: computeEmbedding_def)
  next
    case (Inr e)
    let ?w1 = "w\<lparr>trace := trace w @ [Embed c]\<rparr>"
    from Cons.prems Inr have "\<exists>d \<in> set cs. isl (embedder d)" by auto
    from Cons.IH [OF this, of "Suc i" ?w1]
    obtain err w2 where "embed_loop embedder clock src cs (Suc i) ?w1 = (Inl err, w2)"
      by (cases "embed_loop embedder clock src cs (Suc i) ?w1"; cases "fst (embed_loop embedder clock src cs (Suc i) ?w1)") auto
    with Inr show ?thesis
      by (simp add: computeEmbedding_def)
  qed
qed

text \<open>
  C5. When the embedder fails on some chunk of an ingestion request, the answer is 500,
  the store file is what it was before the request, and the request has done nothing
  but call the embedder: it has neither read nor written the store.
\<close>

theorem post_docs_embedding_failure:
  assumes "trim txt \<noteq> []" and "\<exists>c \<in> set (chunkText txt 500). isl (embedder c)"
  shows "fst (post_docs embedder clock (Some txt) body_source w) =
           \<lparr>status = 500, json = ErrorBody ''Failed to index document''\<rparr> \<and>
         store_file (snd (post_docs embedder clock (Some txt) body_source w)) = store_file w \<and>
         (\<exists>called. trace (snd (post_docs embedder clock (Some txt) body_source w)) =
                     trace w @ map Embed called)"
proof -
  let ?src = "case body_source of None \<Rightarrow> ''manual'' | Some s \<Rightarrow> s"
  have t: "txt \<noteq> []" using assms(1) by (rule trim_nonblank_nonempty)
  obtain res w1 where loop: "embed_loop embedder clock ?src (chunkText txt 500) 0 w = (res, w1)"
    by (cases "embed_loop embedder clock ?src (chunkText txt 500) 0 w")
  from embed_loop_fails [OF assms(2), of clock ?src 0 w] loop obtain err where res: "res = Inl err"
    by (cases res) simp_all
  from embed_loop_world [OF loop]
  have w1: "store_file w1 = store_file w" "\<exists>called. trace w1 = trace w @ map Embed called"
    by simp_all
  have "post_docs embedder clock (Some txt) body_source w =
      (\<lparr>status = 500, json = ErrorBody ''Failed to index document''\<rparr>, w1)"
    using t assms(1) loop res by (simp add: post_docs_def)
  with w1 show ?thesis by simp
qed

lemma chunkText_a: "chunkText ''a'' 500 = [''a'']"
  by (simp add: chunkText_def trim_def is_ws_def newline_def)

lemma chunkText_b: "chunkText ''b'' 500 = [''b'']"
  by (simp add: chunkText_def trim_def is_ws_def newline_def)

theorem post_docs_embedding_failure_witness:
  "fst (post_docs (\<lambda>t. Inl ''model failed'') (\<lambda>i. 1700000000000) (Some ''a'') None
     \<lparr>store_file = Some
        [\<lparr>id_r = ''1-0'', text_r = ''Paris'', source = ''geo'', embedding = [Num 1]\<rparr>],
      trace = []\<rparr>) =
     \<lparr>status = 500, json = ErrorBody ''Failed to index document''\<rparr> \<and>
   store_file (snd (post_docs (\<lambda>t. Inl ''model failed'') (\<lambda>i. 1700000000000) (Some ''a'') None
     \<lparr>store_file = Some
        [\<lparr>id_r = ''1-0'', text_r = ''Paris'', source = ''geo'', embedding = [Num 1]\<rparr>],
      trace = []\<rparr>)) =
     Some [\<lparr>id_r = ''1-0'', text_r = ''Paris'', source = ''geo'', embedding = [Num 1]\<rparr>]"
proof -
  let ?w = "\<lparr>store_file = Some
        [\<lparr>id_r = ''1-0'', text_r = ''Paris'', source = ''geo'', embedding = [Num 1]\<rparr>],
      trace = []\<rparr>"
  let ?e = "(\<lambda>t. Inl ''model failed'') :: string \<Rightarrow> string + jsnum list"
  have t: "trim ''a'' \<noteq> []" by (simp add: trim_def is_ws_def)
  have f: "\<exists>c \<in> set (chunkText ''a'' 500). isl (?e c)" by (simp add: chunkText_a)
  from post_docs_embedding_failure [OF t f, of "\<lambda>i. 1700000000000" None ?w]
  show ?thesis by simp
qed

text \<open>
  The ids of one request differ from each other: the rendering of a number is injective
  and has no \<open>-\<close>, so an id determines its timestamp and its index, and the indices of
  one batch differ.
\<close>

lemma digit_char_inj:
  assumes "d < 10" and "e < 10" and "digit_char d = digit_char e"
  shows "d = e"
proof -
  have "distinct ''0123456789''" by simp
  moreover have "d < length ''0123456789''" "e < length ''0123456789''" using assms by simp_all
  ultimately show ?thesis
    using assms(3) unfolding digit_char_def by (simp only: nth_eq_iff_index_eq)
qed

lemma digit_char_not_dash:
  assumes "d < 10"
  shows "digit_char d \<noteq> CHR ''-''"
proof -
  have "d < length ''0123456789''" using assms by simp
  then have "''0123456789'' ! d \<in> set ''0123456789''" by (rule nth_mem)
  then show ?thesis unfolding digit_char_def by auto
qed

lemma num_to_string_no_dash: "CHR ''-'' \<notin> set (num_to_string n)"
proof (induction n rule: num_to_string.induct)
  case (1 n)
  show ?case
  proof (cases "n < 10")
    case True
    then show ?thesis
      using digit_char_not_dash [of n] by (simp add: num_to_string.simps)
  next
    case False
    have "n mod 10 < 10" by simp
    with False 1 show ?thesis
      using digit_char_not_dash [of "n mod 10"] by (simp add: num_to_string.simps [of n])
  qed
qed

lemma num_to_string_length: "10 \<le> n \<Longrightarrow> 2 \<le> length (num_to_string n)"
proof -
  assume n: "10 \<le> n"
  have "num_to_string (n div 10) \<noteq> []" by (simp add: num_to_string.simps [of "n div 10"])
  then have "1 \<le> length (num_to_string (n div 10))" by (cases "num_to_string (n div 10)") simp_all
  with n show ?thesis by (simp add: num_to_string.simps [of n])
qed

lemma num_to_string_inj: "num_to_string n = num_to_string m \<Longrightarrow> n = m"
proof (induction n arbitrary: m rule: num_to_string.induct)
  case (1 n)
  show ?case
  proof (cases "n < 10")
    case small: True
    show ?thesis
    proof (cases "m < 10")
      case True
      with small "1.prems" show ?thesis
        using digit_char_inj [of n m] by (simp add: num_to_string.simps)
    next
      case False
      then have "2 \<le> length (num_to_string m)" by (simp add: num_to_string_length)
      moreover have "length (num_to_string n) = 1" using small by (simp add: num_to_string.simps)
      ultimately show ?thesis using "1.prems" by simp
    qed
  next
    case big: False
    show ?thesis
    proof (cases "m < 10")
      case True
      then have "length (num_to_string m) = 1" by (simp add: num_to_string.simps)
      moreover from big have "2 \<le> length (num_to_string n)" by (simp add: num_to_string_length)
      ultimately show ?thesis using "1.prems" by simp
    next
      case False
      from "1.prems" big False
      have eq: "num_to_string (n div 10) @ [digit_char (n mod 10)] =
                num_to_string (m div 10) @ [digit_char (m mod 10)]"
        by (simp add: num_to_string.simps [of n] num_to_string.simps [of m])
      then have "num_to_string (n div 10) = num_to_string (m div 10)"
        and d: "digit_char (n mod 10) = digit_char (m mod 10)" by simp_all
      then have "n div 10 = m div 10" using "1.IH" big by simp
      moreover have "n mod 10 = m mod 10"
        using digit_char_inj [OF _ _ d] by simp
      ultimately show ?thesis by (metis div_mult_mod_eq)
    qed
  qed
qed

lemma split_at_first:
  "c \<notin> set xs \<Longrightarrow> c \<notin> set xs' \<Longrightarrow> xs @ c # ys = xs' @ c # ys' \<Longrightarrow> xs = xs' \<and> ys = ys'"
proof (induction xs arbitrary: xs')
  case Nil
  then show ?case by (cases xs') auto
next
  case (Cons x xs)
  then show ?case by (cases xs') auto
qed

lemma make_id_inj: "make_id t i = make_id t' i' \<Longrightarrow> t = t' \<and> i = i'"
proof -
  assume "make_id t i = make_id t' i'"
  then have "num_to_string t @ CHR ''-'' # num_to_string i =
             num_to_string t' @ CHR ''-'' # num_to_string i'"
    by (simp add: make_id_def)
  from split_at_first [OF num_to_string_no_dash num_to_string_no_dash this]
  show ?thesis by (auto dest: num_to_string_inj)
qed

lemma embed_loop_ids:
  "embed_loop embedder clock src cs i w = (Inr vectors, w') \<Longrightarrow>
     map id_r vectors = map (\<lambda>j. make_id (clock j) j) [i..<i + length cs]"
proof (induction cs arbitrary: i w vectors w')
  case Nil
  then show ?case by simp
next
  case (Cons c cs)
  let ?w1 = "w\<lparr>trace := trace w @ [Embed c]\<rparr>"
  from Cons.prems obtain e rest w2 where
    rest: "embed_loop embedder clock src cs (Suc i) ?w1 = (Inr rest, w2)"
    and v: "vectors = \<lparr>id_r = make_id (clock i) i, text_r = c, source = src, embedding = e\<rparr> # rest"
    by (auto simp: computeEmbedding_def split: sum.splits prod.splits)
  have e: "i + length (c # cs) = Suc (i + length cs)" "Suc i + length cs = Suc (i + length cs)"
    by simp_all
  have "i < Suc (i + length cs)" by simp
  then have "[i..<Suc (i + length cs)] = i # [Suc i..<Suc (i + length cs)]"
    by (rule upt_conv_Cons)
  with Cons.IH [OF rest] v show ?case
    unfolding e by (simp only: list.map chunk_record.simps)
qed

lemma embed_loop_ids_distinct:
  assumes "embed_loop embedder clock src cs i w = (Inr vectors, w')"
  shows "distinct (map id_r vectors)"
proof -
  have "inj_on (\<lambda>j. make_id (clock j) j) (set [i..<i + length cs])"
    by (rule inj_onI) (auto dest: make_id_inj)
  then show ?thesis
    by (simp add: embed_loop_ids [OF assms] distinct_map)
qed

lemma num_to_string_zero: "num_to_string 0 = ''0''"
  by (simp add: num_to_string.simps digit_char_def)

lemma num_to_string_timestamp: "num_to_string 1700000000000 = ''1700000000000''"
  by (simp add: num_to_string.simps digit_char_def)

text \<open>
  C2. Two ingestion requests of one chunk each, whose records are assembled in the same
  millisecond, leave two records with the same id in the store.
\<close>

theorem post_docs_same_millisecond_ids:
  "map id_r (case store_file (snd (post_docs (\<lambda>t. Inr [Num 1]) (\<lambda>i. 1700000000000) (Some ''b'') None
       (snd (post_docs (\<lambda>t. Inr [Num 1]) (\<lambda>i. 1700000000000) (Some ''a'') None
          \<lparr>store_file = None, trace = []\<rparr>)))) of None \<Rightarrow> [] | Some recs \<Rightarrow> recs)
     = [''1700000000000-0'', ''1700000000000-0'']"
  by (simp add: post_docs_def chunkText_a chunkText_b computeEmbedding_def loadDb_def saveDb_def
      make_id_def num_to_string_timestamp num_to_string_zero trim_def is_ws_def Let_def)

end
